theory Spec2Isabelle
  imports
    Complex_Main
    "HOL-Library.Char_ord"
    "HOL-Library.List_Lexorder"
    "HOL-Library.Sublist"
begin

section \<open>Review records\<close>

text \<open>
  A review is the dictionary built by \<^verbatim>\<open>extract_reviews\<close> in
  \<^verbatim>\<open>app_reviews_fetcher.py\<close>: nine string-valued keys taken from the feed
  labels. \<^verbatim>\<open>get_all_reviews\<close> adds the key \<^verbatim>\<open>'source'\<close>, which is absent
  before the merge, hence an option. The key \<^verbatim>\<open>'id'\<close> is the field \<open>review_id\<close>
  (the name \<open>id\<close> is the identity function of HOL).
\<close>

record review =
  review_id :: string
  author :: string
  rating :: string
  version :: string
  title :: string
  content :: string
  updated :: string
  vote_sum :: string
  vote_count :: string
  source :: "string option"

section \<open>Merging the two orderings: \<^verbatim>\<open>get_all_reviews\<close>\<close>

text \<open>
  \<^verbatim>\<open>self.reviews_data\<close> holds, for each of the two orderings, either \<^verbatim>\<open>None\<close>
  (snapshot file not found) or the loaded snapshot, of which only the list under
  \<^verbatim>\<open>'reviews'\<close> is read here.
\<close>

record reviews_data =
  most_helpful :: "review list option"
  most_recent :: "review list option"

text \<open>
  The inner loop over one ordering. The state is the pair of \<^verbatim>\<open>all_reviews\<close> and
  \<^verbatim>\<open>seen_ids\<close>; a review whose id is unseen gets its \<^verbatim>\<open>'source'\<close> key set to the
  ordering's name, is appended, and its id is recorded.
\<close>

fun add_reviews :: "string \<Rightarrow> review list \<Rightarrow> review list \<times> string set \<Rightarrow> review list \<times> string set" where
  "add_reviews src [] (all_reviews, seen_ids) = (all_reviews, seen_ids)"
| "add_reviews src (r # rs) (all_reviews, seen_ids) =
     (if review_id r \<notin> seen_ids
      then add_reviews src rs (all_reviews @ [r\<lparr>source := Some src\<rparr>], insert (review_id r) seen_ids)
      else add_reviews src rs (all_reviews, seen_ids))"

text \<open>
  The outer loop over \<^verbatim>\<open>['most_helpful', 'most_recent']\<close>; an ordering whose
  snapshot is \<^verbatim>\<open>None\<close> is skipped.
\<close>

definition add_source :: "string \<Rightarrow> review list option \<Rightarrow> review list \<times> string set \<Rightarrow> review list \<times> string set" where
  "add_source src snap st = (case snap of None \<Rightarrow> st | Some rs \<Rightarrow> add_reviews src rs st)"

definition get_all_reviews :: "reviews_data \<Rightarrow> review list" where
  "get_all_reviews rd =
     fst (add_source ''most_recent'' (most_recent rd)
           (add_source ''most_helpful'' (most_helpful rd) ([], {})))"

text \<open>The reviews of an ordering, an absent snapshot contributing none.\<close>

definition ordering_reviews :: "review list option \<Rightarrow> review list" where
  "ordering_reviews snap = (case snap of None \<Rightarrow> [] | Some rs \<Rightarrow> rs)"

text \<open>The first review of a sequence that carries a given id.\<close>

definition first_with_id :: "string \<Rightarrow> review list \<Rightarrow> review option" where
  "first_with_id i rs = find (\<lambda>r. review_id r = i) rs"

section \<open>Exceptions\<close>

text \<open>
  The exceptions that the modelled functions let escape. \<open>OtherException\<close> stands for
  whatever \<^verbatim>\<open>urlopen\<close> or \<^verbatim>\<open>response.read()\<close> raises besides the
  \<^verbatim>\<open>HTTPError\<close>, \<^verbatim>\<open>URLError\<close> and \<^verbatim>\<open>JSONDecodeError\<close> that
  \<^verbatim>\<open>fetch_url\<close> catches.
\<close>

datatype py_error = KeyError | ValueError | TypeError | StatisticsError | OverflowError | OtherException

section \<open>Strings as Python handles them\<close>

text \<open>\<^verbatim>\<open>sub in s\<close> for strings: \<open>sub\<close> occurs in \<open>s\<close> as a contiguous block.\<close>

fun str_in :: "string \<Rightarrow> string \<Rightarrow> bool" where
  "str_in sub [] = (sub = [])"
| "str_in sub (c # cs) = (prefix sub (c # cs) \<or> str_in sub cs)"

text \<open>
  \<^verbatim>\<open>s.replace(old, new)\<close>: the occurrences of \<open>old\<close> are replaced from the left,
  without overlap. The source calls it with a non-empty \<open>old\<close> only; for an empty one
  this definition returns \<open>s\<close>, which is not what Python does.
\<close>

function str_replace :: "string \<Rightarrow> string \<Rightarrow> string \<Rightarrow> string" where
  "str_replace old new s =
     (if old = [] then s
      else if prefix old s then new @ str_replace old new (drop (length old) s)
      else (case s of [] \<Rightarrow> [] | c # cs \<Rightarrow> c # str_replace old new cs))"
  by pat_completeness auto
termination
  by (relation "measure (\<lambda>(old, new, s). length s)") (auto simp: prefix_def)

declare str_replace.simps [simp del]

text \<open>\<^verbatim>\<open>s.split(sep)[0]\<close>: the part of \<open>s\<close> before the first occurrence of \<open>sep\<close>.\<close>

fun split_head :: "string \<Rightarrow> string \<Rightarrow> string" where
  "split_head sep [] = []"
| "split_head sep (c # cs) = (if prefix sep (c # cs) then [] else c # split_head sep cs)"

section \<open>The feed payload\<close>

text \<open>
  The parsed JSON document of a page, in the shape the fetcher reads: an optional
  \<^verbatim>\<open>'feed'\<close> with optional \<^verbatim>\<open>'entry'\<close>, \<^verbatim>\<open>'link'\<close> and
  \<^verbatim>\<open>'title'\<close>. An entry or link collection is a single object (a dict) or a list
  of objects. Every label that \<^verbatim>\<open>extract_reviews\<close> reads through a chain of
  \<^verbatim>\<open>.get(..., {})\<close> is an option: \<open>None\<close> when a key of the chain is absent.
\<close>

datatype 'a one_or_many = One 'a | Many "'a list"

record entry =
  entry_id :: "string option"
  entry_author :: "string option"
  entry_rating :: "string option"
  entry_version :: "string option"
  entry_title :: "string option"
  entry_content :: "string option"
  entry_updated :: "string option"
  entry_vote_sum :: "string option"
  entry_vote_count :: "string option"

record link_attrs =
  rel :: "string option"
  href :: "string option"

record link =
  attributes :: "link_attrs option"

record feed =
  feed_entry :: "entry one_or_many option"
  feed_link :: "link one_or_many option"
  feed_title :: "string option option"

text \<open>
  A payload is either falsy (\<^verbatim>\<open>{}\<close>, \<^verbatim>\<open>null\<close>, \<^verbatim>\<open>[]\<close>, ...), which
  \<^verbatim>\<open>if not data\<close> treats like a failed fetch, or a non-empty document with or
  without the key \<^verbatim>\<open>'feed'\<close>.
\<close>

datatype payload = Falsy | Doc "feed option"

definition as_list :: "'a one_or_many \<Rightarrow> 'a list" where
  "as_list c = (case c of One x \<Rightarrow> [x] | Many xs \<Rightarrow> xs)"

definition get_label :: "string option \<Rightarrow> string \<Rightarrow> string" where
  "get_label l dflt = (case l of None \<Rightarrow> dflt | Some s \<Rightarrow> s)"

definition review_of_entry :: "entry \<Rightarrow> review" where
  "review_of_entry e =
     \<lparr>review_id = get_label (entry_id e) [],
      author = get_label (entry_author e) [],
      rating = get_label (entry_rating e) [],
      version = get_label (entry_version e) [],
      title = get_label (entry_title e) [],
      content = get_label (entry_content e) [],
      updated = get_label (entry_updated e) [],
      vote_sum = get_label (entry_vote_sum e) ''0'',
      vote_count = get_label (entry_vote_count e) ''0'',
      source = None\<rparr>"

definition extract_reviews :: "payload \<Rightarrow> review list" where
  "extract_reviews data =
     (case data of
        Doc (Some f) \<Rightarrow>
          (case feed_entry f of
             Some entries \<Rightarrow> map review_of_entry (as_list entries)
           | None \<Rightarrow> [])
      | _ \<Rightarrow> [])"

text \<open>
  The rewriting of the href of a \<^verbatim>\<open>next\<close> link: when it mentions \<^verbatim>\<open>xml\<close>,
  every \<^verbatim>\<open>/xml\<close> becomes \<^verbatim>\<open>/json\<close> and the text from \<^verbatim>\<open>?urlDesc=\<close> on is
  dropped.
\<close>

definition rewrite_next :: "string \<Rightarrow> string" where
  "rewrite_next next_url =
     (if str_in ''xml'' next_url
      then (let u = str_replace ''/xml'' ''/json'' next_url
            in if str_in ''?urlDesc='' u then split_head ''?urlDesc='' u else u)
      else next_url)"

text \<open>
  The loop over the links returns at the first link whose \<^verbatim>\<open>rel\<close> is
  \<^verbatim>\<open>'next'\<close>; \<^verbatim>\<open>link['attributes']['href']\<close> raises \<^verbatim>\<open>KeyError\<close> when that
  link has no href.
\<close>

fun first_next_link :: "link list \<Rightarrow> py_error + string option" where
  "first_next_link [] = Inr None"
| "first_next_link (l # ls) =
     (case attributes l of
        None \<Rightarrow> first_next_link ls
      | Some a \<Rightarrow>
          if rel a = Some ''next''
          then (case href a of None \<Rightarrow> Inl KeyError | Some h \<Rightarrow> Inr (Some (rewrite_next h)))
          else first_next_link ls)"

definition get_next_page_url :: "payload \<Rightarrow> py_error + string option" where
  "get_next_page_url data =
     (case data of
        Doc (Some f) \<Rightarrow>
          (case feed_link f of
             Some links \<Rightarrow> first_next_link (as_list links)
           | None \<Rightarrow> Inr None)
      | _ \<Rightarrow> Inr None)"

section \<open>The fetcher: \<^verbatim>\<open>fetch_url\<close>\<close>

text \<open>
  What the fetcher does to the outside is recorded as a trace of events: a request for a
  URL, or a sleep of so many seconds. The network is a function from the trace so far
  and the requested URL to the outcome of the request, so an answer may depend on
  everything that happened before. Printing to standard output is left out.
\<close>

datatype event = Request string | Sleep nat

datatype outcome =
    TransportFailure
  | MalformedBody
  | Body payload
  | OtherFailure

type_synonym network = "event list \<Rightarrow> string \<Rightarrow> outcome"

text \<open>\<^verbatim>\<open>self.session_stats\<close> and the trace.\<close>

record world =
  pages_fetched :: nat
  session_total_reviews :: nat
  errors :: nat
  trace :: "event list"

definition MAX_RETRIES :: nat where
  "MAX_RETRIES = 3"

definition DELAY_BETWEEN_REQUESTS :: nat where
  "DELAY_BETWEEN_REQUESTS = 1"

definition BASE_URL :: string where
  "BASE_URL = ''https://itunes.apple.com/us/rss/customerreviews''"

definition sleep :: "nat \<Rightarrow> world \<Rightarrow> world" where
  "sleep n w = w\<lparr>trace := trace w @ [Sleep n]\<rparr>"

text \<open>
  The body of \<^verbatim>\<open>for attempt in range(self.MAX_RETRIES)\<close>, from the given attempt
  on. \<open>TransportFailure\<close> is an \<^verbatim>\<open>HTTPError\<close> or \<^verbatim>\<open>URLError\<close>,
  \<open>MalformedBody\<close> a \<^verbatim>\<open>JSONDecodeError\<close>; \<open>OtherFailure\<close> is not caught. A loop
  that runs out of attempts falls off the end of the function, which returns
  \<^verbatim>\<open>None\<close>.
\<close>

function fetch_attempts :: "network \<Rightarrow> string \<Rightarrow> nat \<Rightarrow> world \<Rightarrow> (py_error + payload option) \<times> world" where
  "fetch_attempts net url attempt w =
     (if attempt < MAX_RETRIES
      then (let w1 = w\<lparr>trace := trace w @ [Request url]\<rparr>
            in case net (trace w) url of
                 Body data \<Rightarrow> (Inr (Some data), w1\<lparr>pages_fetched := pages_fetched w1 + 1\<rparr>)
               | TransportFailure \<Rightarrow>
                   (let w2 = w1\<lparr>errors := errors w1 + 1\<rparr>
                    in if attempt < MAX_RETRIES - 1
                       then fetch_attempts net url (attempt + 1) (sleep (2 ^ attempt) w2)
                       else (Inr None, w2))
               | MalformedBody \<Rightarrow> (Inr None, w1\<lparr>errors := errors w1 + 1\<rparr>)
               | OtherFailure \<Rightarrow> (Inl OtherException, w1))
      else (Inr None, w))"
  by pat_completeness auto
termination
  by (relation "measure (\<lambda>(net, url, attempt, w). MAX_RETRIES - attempt)") auto

declare fetch_attempts.simps [simp del]

definition fetch_url :: "network \<Rightarrow> string \<Rightarrow> world \<Rightarrow> (py_error + payload option) \<times> world" where
  "fetch_url net url w = fetch_attempts net url 0 w"

section \<open>The pagination walk: \<^verbatim>\<open>fetch_all_reviews\<close>\<close>

record metadata =
  md_app_id :: string
  md_sort_by :: string
  md_fetch_timestamp :: string
  md_total_pages :: nat
  md_total_reviews :: nat
  md_app_name :: "string option"

text \<open>The variables of the \<^verbatim>\<open>while url\<close> loop.\<close>

record walk_state =
  ws_world :: world
  ws_url :: string
  ws_page_num :: nat
  ws_all_reviews :: "review list"
  ws_metadata :: metadata

datatype step = Continue walk_state | Break walk_state | Raise py_error

text \<open>
  \<^verbatim>\<open>not metadata.get('app_name')\<close> holds when the key is absent or its value is the
  empty string; then the title of the page, if any, sets the name.
\<close>

definition update_app_name :: "payload \<Rightarrow> metadata \<Rightarrow> metadata" where
  "update_app_name data md =
     (case data of
        Doc (Some f) \<Rightarrow>
          (case feed_title f of
             Some t \<Rightarrow>
               if md_app_name md = None \<or> md_app_name md = Some []
               then md\<lparr>md_app_name := Some (str_replace '' Customer Reviews'' [] (get_label t []))\<rparr>
               else md
           | None \<Rightarrow> md)
      | _ \<Rightarrow> md)"

text \<open>
  One pass through the loop body. \<open>Break\<close> is an exit from the loop, by
  \<^verbatim>\<open>break\<close> or because the loop condition fails; \<open>Continue\<close> is the state at
  the next test of the loop condition.
\<close>

definition walk_step :: "network \<Rightarrow> walk_state \<Rightarrow> step" where
  "walk_step net s =
     (if ws_url s = [] then Break s
      else
        (let w1 = (if ws_page_num s > 1 then sleep DELAY_BETWEEN_REQUESTS (ws_world s) else ws_world s)
         in case fetch_url net (ws_url s) w1 of
              (Inl e, w2) \<Rightarrow> Raise e
            | (Inr None, w2) \<Rightarrow> Break (s\<lparr>ws_world := w2\<rparr>)
            | (Inr (Some Falsy), w2) \<Rightarrow> Break (s\<lparr>ws_world := w2\<rparr>)
            | (Inr (Some data), w2) \<Rightarrow>
                (let s1 = s\<lparr>ws_world := w2,
                            ws_all_reviews := ws_all_reviews s @ extract_reviews data,
                            ws_metadata := update_app_name data (ws_metadata s)\<rparr>
                 in case get_next_page_url data of
                      Inl e \<Rightarrow> Raise e
                    | Inr None \<Rightarrow> Break s1
                    | Inr (Some next_url) \<Rightarrow>
                        if next_url \<noteq> [] \<and> next_url \<noteq> ws_url s
                        then Continue (s1\<lparr>ws_url := next_url, ws_page_num := ws_page_num s + 1\<rparr>)
                        else Break s1)))"

text \<open>
  The loop. It may run forever, so its value is an option: \<open>None\<close> when it does not
  return, \<open>Some (Inl e)\<close> when an exception escapes, \<open>Some (Inr s)\<close> when it exits
  in state \<open>s\<close>.
\<close>

partial_function (option) walk :: "network \<Rightarrow> walk_state \<Rightarrow> (py_error + walk_state) option" where
  [code]: "walk net s =
     (case walk_step net s of
        Continue s' \<Rightarrow> walk net s'
      | Break s' \<Rightarrow> Some (Inr s')
      | Raise e \<Rightarrow> Some (Inl e))"

text \<open>
  \<^verbatim>\<open>fetch_all_reviews\<close>: the initial state, the loop, and the totals written after
  it. \<open>now\<close> is the value of \<^verbatim>\<open>datetime.now().isoformat()\<close>.
\<close>

definition first_page_url :: "string \<Rightarrow> string \<Rightarrow> string" where
  "first_page_url app sort_by = BASE_URL @ ''/page=1/id='' @ app @ ''/sortby='' @ sort_by @ ''/json''"

definition initial_walk_state :: "string \<Rightarrow> string \<Rightarrow> string \<Rightarrow> world \<Rightarrow> walk_state" where
  "initial_walk_state app now sort_by w =
     \<lparr>ws_world = w,
      ws_url = first_page_url app sort_by,
      ws_page_num = 1,
      ws_all_reviews = [],
      ws_metadata = \<lparr>md_app_id = app, md_sort_by = sort_by, md_fetch_timestamp = now,
                     md_total_pages = 0, md_total_reviews = 0, md_app_name = None\<rparr>\<rparr>"

definition finish_walk :: "walk_state \<Rightarrow> (review list \<times> metadata) \<times> world" where
  "finish_walk s =
     ((ws_all_reviews s,
       (ws_metadata s)\<lparr>md_total_pages := ws_page_num s,
                       md_total_reviews := length (ws_all_reviews s)\<rparr>),
      (ws_world s)\<lparr>session_total_reviews :=
                     session_total_reviews (ws_world s) + length (ws_all_reviews s)\<rparr>)"

definition fetch_all_reviews ::
  "network \<Rightarrow> string \<Rightarrow> string \<Rightarrow> string \<Rightarrow> world \<Rightarrow> (py_error + (review list \<times> metadata) \<times> world) option" where
  "fetch_all_reviews net app now sort_by w =
     map_option (map_sum (\<lambda>e. e) finish_walk) (walk net (initial_walk_state app now sort_by w))"

section \<open>The Python library as the analyzer uses it\<close>

subsection \<open>Numbers\<close>

text \<open>
  A number is an \<^verbatim>\<open>int\<close> or a \<^verbatim>\<open>float\<close>; a float is kept as the rational
  number it denotes. Which rationals are floats, and how a rational is rounded to one, is
  not fixed here: the conversions are taken from the environment below.
\<close>

datatype pynum = PyInt int | PyFloat rat

fun num_val :: "pynum \<Rightarrow> rat" where
  "num_val (PyInt k) = of_int k"
| "num_val (PyFloat q) = q"

fun is_int :: "pynum \<Rightarrow> bool" where
  "is_int (PyInt k) = True"
| "is_int (PyFloat q) = False"

subsection \<open>Dates\<close>

text \<open>
  A \<^verbatim>\<open>datetime\<close>, by what the analyzer observes of it: the year and the month
  that \<^verbatim>\<open>strftime('%Y-%m')\<close> prints, the local time as a number of microseconds, and
  the offset from UTC in microseconds, absent for a naive value.
\<close>

record datetime =
  dt_year :: nat
  dt_month :: nat
  dt_local :: int
  dt_utcoffset :: "int option"

definition aware :: "datetime \<Rightarrow> bool" where
  "aware d = (dt_utcoffset d \<noteq> None)"

text \<open>Aware values are ordered by their UTC time, naive ones by their local time.\<close>

definition dt_sort_key :: "datetime \<Rightarrow> int" where
  "dt_sort_key d = (case dt_utcoffset d of None \<Rightarrow> dt_local d | Some off \<Rightarrow> dt_local d - off)"

subsection \<open>The environment\<close>

text \<open>
  The library functions whose results the analyzer depends on and which are not
  modelled here:
  \<^item> \<open>int_of_str\<close> is \<^verbatim>\<open>int(s)\<close> on a string, \<open>None\<close> for \<^verbatim>\<open>ValueError\<close>;
  \<^item> \<open>fromisoformat\<close> is \<^verbatim>\<open>datetime.fromisoformat(s)\<close>, \<open>None\<close> for
    \<^verbatim>\<open>ValueError\<close>;
  \<^item> \<open>to_float\<close> is the conversion of an exact quotient to a float, as
    \<^verbatim>\<open>statistics.mean\<close> and the division of two ints do it, \<open>None\<close> for
    \<^verbatim>\<open>OverflowError\<close>;
  \<^item> \<open>round2\<close> is \<^verbatim>\<open>round(x, 2)\<close> on a float;
  \<^item> \<open>lower\<close> is \<^verbatim>\<open>str.lower\<close>.
\<close>

record py_env =
  int_of_str :: "string \<Rightarrow> int option"
  fromisoformat :: "string \<Rightarrow> datetime option"
  to_float :: "rat \<Rightarrow> rat option"
  round2 :: "rat \<Rightarrow> rat"
  lower :: "string \<Rightarrow> string"

definition py_int :: "py_env \<Rightarrow> string \<Rightarrow> py_error + int" where
  "py_int env s = (case int_of_str env s of None \<Rightarrow> Inl ValueError | Some k \<Rightarrow> Inr k)"

definition py_float :: "py_env \<Rightarrow> rat \<Rightarrow> py_error + pynum" where
  "py_float env q = (case to_float env q of None \<Rightarrow> Inl OverflowError | Some f \<Rightarrow> Inr (PyFloat f))"

fun py_round2 :: "py_env \<Rightarrow> pynum \<Rightarrow> pynum" where
  "py_round2 env (PyInt k) = PyInt k"
| "py_round2 env (PyFloat q) = PyFloat (round2 env q)"

text \<open>
  What is assumed of floats where a result depends on it: up to the bound \<open>b\<close> in
  absolute value, the conversion to a float does not overflow, and neither it nor the
  rounding to two places leaves the bound. The floats of Python satisfy this for every
  integer \<open>b\<close> below \<open>2 ^ 1023\<close>.
\<close>

definition float_ok :: "py_env \<Rightarrow> rat \<Rightarrow> bool" where
  "float_ok env b \<longleftrightarrow>
     (\<forall>q. \<bar>q\<bar> \<le> b \<longrightarrow> (\<exists>f. to_float env q = Some f \<and> \<bar>f\<bar> \<le> b)) \<and>
     (\<forall>q. \<bar>q\<bar> \<le> b \<longrightarrow> \<bar>round2 env q\<bar> \<le> b)"

subsection \<open>\<^verbatim>\<open>statistics.mean\<close> and \<^verbatim>\<open>statistics.median\<close>\<close>

text \<open>
  \<^verbatim>\<open>statistics.mean\<close> adds the data exactly and divides by their number. Over ints
  with an integral mean the result is that int; otherwise it is the quotient converted
  to a float. No data is a \<^verbatim>\<open>StatisticsError\<close>.
\<close>

definition py_mean :: "py_env \<Rightarrow> pynum list \<Rightarrow> py_error + pynum" where
  "py_mean env xs =
     (if xs = [] then Inl StatisticsError
      else (let q = sum_list (map num_val xs) / of_nat (length xs)
            in if list_all is_int xs \<and> of_int \<lfloor>q\<rfloor> = q then Inr (PyInt \<lfloor>q\<rfloor>)
               else py_float env q))"

text \<open>
  \<^verbatim>\<open>statistics.median\<close> of ints: the middle element of the sorted data, or, for an
  even number of data, the sum of the two middle elements divided by 2, which is a
  float.
\<close>

definition py_median :: "py_env \<Rightarrow> int list \<Rightarrow> py_error + pynum" where
  "py_median env xs =
     (let data = sort xs; n = length data
      in if n = 0 then Inl StatisticsError
         else if n mod 2 = 1 then Inr (PyInt (data ! (n div 2)))
         else py_float env (of_int (data ! (n div 2 - 1) + data ! (n div 2)) / 2))"

subsection \<open>Printing numbers\<close>

definition digit_char :: "nat \<Rightarrow> char" where
  "digit_char d = char_of (48 + d)"

text \<open>The decimal digits of a natural number, without leading zeros.\<close>

fun dec :: "nat \<Rightarrow> string" where
  "dec n = (if n < 10 then [digit_char n] else dec (n div 10) @ [digit_char (n mod 10)])"

declare dec.simps [simp del]

text \<open>\<^verbatim>\<open>str(k)\<close> for an int.\<close>

definition py_str :: "int \<Rightarrow> string" where
  "py_str k = (if k < 0 then CHR ''-'' # dec (nat (- k)) else dec (nat k))"

definition zero_pad :: "nat \<Rightarrow> string \<Rightarrow> string" where
  "zero_pad w s = replicate (w - length s) CHR ''0'' @ s"

text \<open>
  \<^verbatim>\<open>date.strftime('%Y-%m')\<close>. CPython 3.11 hands the format to the \<^verbatim>\<open>strftime\<close>
  of the C library, and that of glibc writes the year \<^verbatim>\<open>%Y\<close> without padding and
  the month \<^verbatim>\<open>%m\<close> on two digits: the key of December 999 is \<^verbatim>\<open>999-12\<close>, not
  \<^verbatim>\<open>0999-12\<close>.
\<close>

definition month_key :: "datetime \<Rightarrow> string" where
  "month_key d = dec (dt_year d) @ ''-'' @ zero_pad 2 (dec (dt_month d))"

subsection \<open>Dictionaries in insertion order\<close>

text \<open>
  A \<^verbatim>\<open>dict\<close> as the list of its items in insertion order. \<open>dict_set\<close> is the
  assignment \<^verbatim>\<open>d[k] = v\<close>: an existing key keeps its place, a new key goes last.
\<close>

fun dict_set :: "'k \<Rightarrow> 'v \<Rightarrow> ('k \<times> 'v) list \<Rightarrow> ('k \<times> 'v) list" where
  "dict_set k v [] = [(k, v)]"
| "dict_set k v ((k', v') # d) = (if k' = k then (k, v) # d else (k', v') # dict_set k v d)"

text \<open>\<^verbatim>\<open>xs[-n:]\<close> and \<^verbatim>\<open>xs[-6:-3]\<close>.\<close>

definition last_n :: "nat \<Rightarrow> 'a list \<Rightarrow> 'a list" where
  "last_n n xs = drop (length xs - n) xs"

definition slice_m6_m3 :: "'a list \<Rightarrow> 'a list" where
  "slice_m6_m3 xs = drop (length xs - 6) (take (length xs - 3) xs)"

text \<open>The first exception of a sequence of results, or all the values.\<close>

fun collect :: "('e + 'a) list \<Rightarrow> 'e + 'a list" where
  "collect [] = Inr []"
| "collect (Inl e # rs) = Inl e"
| "collect (Inr x # rs) = (case collect rs of Inl e \<Rightarrow> Inl e | Inr xs \<Rightarrow> Inr (x # xs))"

section \<open>Rating statistics: \<^verbatim>\<open>analyze_ratings_distribution\<close>\<close>

text \<open>
  \<^verbatim>\<open>[int(review['rating']) for review in reviews]\<close>: the first rating that is not
  an integer literal raises \<^verbatim>\<open>ValueError\<close>.
\<close>

definition int_ratings :: "py_env \<Rightarrow> review list \<Rightarrow> py_error + int list" where
  "int_ratings env reviews = collect (map (\<lambda>r. py_int env (rating r)) reviews)"

text \<open>\<^verbatim>\<open>Counter(ratings)\<close>: the keys in the order of their first occurrence.\<close>

definition counter_add :: "'k \<Rightarrow> ('k \<times> nat) list \<Rightarrow> ('k \<times> nat) list" where
  "counter_add k c = dict_set k (case map_of c k of None \<Rightarrow> 1 | Some n \<Rightarrow> n + 1) c"

definition counter :: "'k list \<Rightarrow> ('k \<times> nat) list" where
  "counter xs = foldl (\<lambda>c k. counter_add k c) [] xs"

text \<open>\<^verbatim>\<open>{str(k): v for k, v in rating_counts.items()}\<close>\<close>

definition str_keys :: "(int \<times> nat) list \<Rightarrow> (string \<times> nat) list" where
  "str_keys rating_counts = foldl (\<lambda>d (k, v). dict_set (py_str k) v d) [] rating_counts"

record rating_stats =
  distribution :: "(string \<times> nat) list"
  total_reviews :: nat
  average_rating :: pynum
  median_rating :: pynum
  low_ratings_count :: nat
  high_ratings_count :: nat

definition analyze_ratings_distribution :: "py_env \<Rightarrow> review list \<Rightarrow> py_error + rating_stats" where
  "analyze_ratings_distribution env reviews =
     (case int_ratings env reviews of
        Inl e \<Rightarrow> Inl e
      | Inr ratings \<Rightarrow>
          (let rating_counts = counter ratings;
               dist = str_keys rating_counts
           in case py_mean env (map PyInt ratings) of
                Inl e \<Rightarrow> Inl e
              | Inr mean \<Rightarrow>
                  (case py_median env ratings of
                     Inl e \<Rightarrow> Inl e
                   | Inr median \<Rightarrow>
                       Inr \<lparr>distribution = dist,
                            total_reviews = length ratings,
                            average_rating = py_round2 env mean,
                            median_rating = median,
                            low_ratings_count = length (filter (\<lambda>r. r \<le> 3) ratings),
                            high_ratings_count = length (filter (\<lambda>r. r \<ge> 4) ratings)\<rparr>)))"

section \<open>Trends: \<^verbatim>\<open>analyze_temporal_trends\<close>\<close>

text \<open>
  The body of the \<^verbatim>\<open>try\<close>: the timestamp with every \<^verbatim>\<open>Z\<close> replaced by
  \<^verbatim>\<open>+00:00\<close> is parsed, then the rating is converted. The bare \<^verbatim>\<open>except\<close>
  skips the review when either fails.
\<close>

definition dated_review :: "py_env \<Rightarrow> review \<Rightarrow> (datetime \<times> int) option" where
  "dated_review env r =
     (case fromisoformat env (str_replace ''Z'' ''+00:00'' (updated r)) of
        None \<Rightarrow> None
      | Some date \<Rightarrow>
          (case int_of_str env (rating r) of
             None \<Rightarrow> None
           | Some k \<Rightarrow> Some (date, k)))"

definition dated_reviews :: "py_env \<Rightarrow> review list \<Rightarrow> (datetime \<times> int) list" where
  "dated_reviews env reviews = List.map_filter (dated_review env) reviews"

text \<open>
  \<^verbatim>\<open>dated_reviews.sort(key=lambda x: x[0])\<close>: a stable sort by date. Comparing a
  naive with an aware \<^verbatim>\<open>datetime\<close> raises \<^verbatim>\<open>TypeError\<close>, and a sort of a list
  that holds both kinds has to compare two such values.
\<close>

definition sort_dated :: "(datetime \<times> int) list \<Rightarrow> py_error + (datetime \<times> int) list" where
  "sort_dated xs =
     (if list_ex (\<lambda>x. aware (fst x)) xs \<and> list_ex (\<lambda>x. \<not> aware (fst x)) xs
      then Inl TypeError
      else Inr (sort_key (\<lambda>x. dt_sort_key (fst x)) xs))"

text \<open>
  \<^verbatim>\<open>monthly_stats\<close>, a \<^verbatim>\<open>defaultdict\<close> from month key to count and ratings: a
  month not yet present starts with count 0 and no ratings.
\<close>

definition add_to_month :: "string \<Rightarrow> int \<Rightarrow> (string \<times> nat \<times> int list) list \<Rightarrow> (string \<times> nat \<times> int list) list" where
  "add_to_month k r ms =
     (case map_of ms k of
        None \<Rightarrow> dict_set k (0 + 1, [] @ [r]) ms
      | Some (c, rs) \<Rightarrow> dict_set k (c + 1, rs @ [r]) ms)"

definition group_by_month :: "(datetime \<times> int) list \<Rightarrow> (string \<times> nat \<times> int list) list" where
  "group_by_month xs = foldl (\<lambda>ms (date, r). add_to_month (month_key date) r ms) [] xs"

text \<open>\<^verbatim>\<open>monthly_trends\<close>: per month the count and the mean rating rounded to 2 places.\<close>

definition month_trend :: "py_env \<Rightarrow> string \<times> nat \<times> int list \<Rightarrow> py_error + string \<times> nat \<times> pynum" where
  "month_trend env = (\<lambda>(month, c, rs).
     case py_mean env (map PyInt rs) of
       Inl e \<Rightarrow> Inl e
     | Inr a \<Rightarrow> Inr (month, c, py_round2 env a))"

definition monthly_trends_of :: "py_env \<Rightarrow> (string \<times> nat \<times> int list) list \<Rightarrow> py_error + (string \<times> nat \<times> pynum) list" where
  "monthly_trends_of env monthly_stats = collect (map (month_trend env) monthly_stats)"

text \<open>\<^verbatim>\<open>[monthly_trends[m]['avg_rating'] for m in months if m in monthly_trends]\<close>\<close>

definition avg_ratings :: "(string \<times> nat \<times> pynum) list \<Rightarrow> string list \<Rightarrow> pynum list" where
  "avg_ratings trends months =
     concat (map (\<lambda>m. case map_of trends m of None \<Rightarrow> [] | Some (c, a) \<Rightarrow> [a]) months)"

text \<open>
  The part of \<^verbatim>\<open>analyze_temporal_trends\<close> up to the two window averages: the
  result is \<^verbatim>\<open>monthly_trends\<close>, \<^verbatim>\<open>recent_avg\<close> and \<^verbatim>\<open>previous_avg\<close>.
\<close>

definition trend_windows ::
  "py_env \<Rightarrow> review list \<Rightarrow> py_error + (string \<times> nat \<times> pynum) list \<times> pynum \<times> pynum" where
  "trend_windows env reviews =
     (case sort_dated (dated_reviews env reviews) of
        Inl e \<Rightarrow> Inl e
      | Inr sorted_reviews \<Rightarrow>
          (case monthly_trends_of env (group_by_month sorted_reviews) of
             Inl e \<Rightarrow> Inl e
           | Inr trends \<Rightarrow>
               (let recent_months = last_n 3 (sort (map fst trends));
                    previous_months = slice_m6_m3 (sort (map fst trends))
                in case py_mean env (avg_ratings trends recent_months) of
                     Inl e \<Rightarrow> Inl e
                   | Inr recent_avg \<Rightarrow>
                       (if previous_months \<noteq> []
                        then (case py_mean env (avg_ratings trends previous_months) of
                                Inl e \<Rightarrow> Inl e
                              | Inr previous_avg \<Rightarrow> Inr (trends, recent_avg, previous_avg))
                        else Inr (trends, recent_avg, recent_avg)))))"

record trend_stats =
  monthly_trends :: "(string \<times> nat \<times> pynum) list"
  recent_trend :: string
  recent_avg_rating :: pynum

definition classify_trend :: "pynum \<Rightarrow> pynum \<Rightarrow> string" where
  "classify_trend recent_avg previous_avg =
     (if num_val recent_avg > num_val previous_avg then ''improving''
      else if num_val recent_avg < num_val previous_avg then ''declining''
      else ''stable'')"

definition analyze_temporal_trends :: "py_env \<Rightarrow> review list \<Rightarrow> py_error + trend_stats" where
  "analyze_temporal_trends env reviews =
     (case trend_windows env reviews of
        Inl e \<Rightarrow> Inl e
      | Inr (trends, recent_avg, previous_avg) \<Rightarrow>
          Inr \<lparr>monthly_trends = last_n 12 (sort_key fst trends),
               recent_trend = classify_trend recent_avg previous_avg,
               recent_avg_rating = py_round2 env recent_avg\<rparr>)"

section \<open>Issues and feature requests: \<^verbatim>\<open>extract_keywords_and_issues\<close>\<close>

text \<open>\<^verbatim>\<open>[r for r in reviews if int(r['rating']) <= 3]\<close>\<close>

fun low_rated_reviews :: "py_env \<Rightarrow> review list \<Rightarrow> py_error + review list" where
  "low_rated_reviews env [] = Inr []"
| "low_rated_reviews env (r # rs) =
     (case py_int env (rating r) of
        Inl e \<Rightarrow> Inl e
      | Inr k \<Rightarrow>
          (case low_rated_reviews env rs of
             Inl e \<Rightarrow> Inl e
           | Inr ls \<Rightarrow> Inr (if k \<le> 3 then r # ls else ls)))"

definition issue_categories :: "(string \<times> string list) list" where
  "issue_categories =
     [(''crashes_bugs'', [''crash'', ''bug'', ''freeze'', ''frozen'', ''stuck'', ''error'', ''broken'', ''fix'', ''glitch'']),
      (''performance'', [''slow'', ''lag'', ''loading'', ''performance'', ''speed'', ''responsive'']),
      (''ui_ux'', [''interface'', ''design'', ''confusing'', ''intuitive'', ''navigation'', ''layout'', ''ui'', ''ux'', ''user experience'']),
      (''features'', [''feature'', ''missing'', ''need'', ''want'', ''wish'', ''add'', ''implement'', ''functionality'']),
      (''sync_data'', [''sync'', ''data'', ''lost'', ''backup'', ''restore'', ''cloud'', ''save'']),
      (''pricing'', [''expensive'', ''price'', ''cost'', ''subscription'', ''free'', ''pay'', ''premium'']),
      (''search_discovery'', [''search'', ''find'', ''discover'', ''filter'', ''sort'']),
      (''social'', [''friends'', ''social'', ''share'', ''community'', ''follow'', ''profile''])]"

text \<open>\<^verbatim>\<open>(review['title'] + ' ' + review['content']).lower()\<close>\<close>

definition review_text :: "py_env \<Rightarrow> review \<Rightarrow> string" where
  "review_text env r = lower env (title r @ '' '' @ content r)"

text \<open>\<^verbatim>\<open>any(keyword in content for keyword in keywords)\<close>\<close>

definition any_keyword :: "string list \<Rightarrow> string \<Rightarrow> bool" where
  "any_keyword keywords text = list_ex (\<lambda>keyword. str_in keyword text) keywords"

text \<open>\<^verbatim>\<open>c[:n] + '...' if len(c) > n else c\<close>\<close>

definition excerpt :: "nat \<Rightarrow> string \<Rightarrow> string" where
  "excerpt n c = (if length c > n then take n c @ ''...'' else c)"

text \<open>An example is the pair of the keys \<^verbatim>\<open>'rating'\<close> and \<^verbatim>\<open>'excerpt'\<close>.\<close>

type_synonym example = "string \<times> string"

type_synonym category_counts = "(string \<times> nat \<times> example list) list"

text \<open>The example that a review contributes to a category.\<close>

definition issue_example :: "review \<Rightarrow> example" where
  "issue_example r = (rating r, excerpt 200 (content r))"

text \<open>
  The body of \<^verbatim>\<open>if any(...)\<close>: the entry of the category, created with count 0 and
  no examples when absent, gets its count incremented and, while it holds fewer than 3
  examples, one more example.
\<close>

definition count_issue :: "string \<Rightarrow> review \<Rightarrow> category_counts \<Rightarrow> category_counts" where
  "count_issue category r cc =
     (let (c, examples) = (case map_of cc category of None \<Rightarrow> (0, []) | Some e \<Rightarrow> e)
      in dict_set category
           (c + 1,
            if length examples < 3 then examples @ [(rating r, excerpt 200 (content r))] else examples)
           cc)"

text \<open>
  The same step on the entry alone, and the entry that the \<^verbatim>\<open>defaultdict\<close> yields
  for a category.
\<close>

definition issue_entry :: "category_counts \<Rightarrow> string \<Rightarrow> nat \<times> example list" where
  "issue_entry cc category = (case map_of cc category of None \<Rightarrow> (0, []) | Some e \<Rightarrow> e)"

definition issue_step :: "review \<Rightarrow> nat \<times> example list \<Rightarrow> nat \<times> example list" where
  "issue_step r = (\<lambda>(c, examples).
     (c + 1, if length examples < 3 then examples @ [issue_example r] else examples))"

text \<open>The loop over the categories for one review, and the loop over the reviews.\<close>

fun categorize_review :: "(string \<times> string list) list \<Rightarrow> string \<Rightarrow> review \<Rightarrow> category_counts \<Rightarrow> category_counts" where
  "categorize_review [] text r cc = cc"
| "categorize_review ((category, keywords) # cats) text r cc =
     categorize_review cats text r
       (if any_keyword keywords text then count_issue category r cc else cc)"

fun categorize :: "py_env \<Rightarrow> review list \<Rightarrow> category_counts \<Rightarrow> category_counts" where
  "categorize env [] cc = cc"
| "categorize env (r # rs) cc =
     categorize env rs (categorize_review issue_categories (review_text env r) r cc)"

subsection \<open>Feature requests\<close>

text \<open>
  The feature patterns use literals, grouping with alternatives, and one optional
  character. Such an expression denotes finitely many words, and \<^verbatim>\<open>re.search\<close>
  succeeds when one of them occurs in the text.
\<close>

datatype rx = Lit string | Seq rx rx | Alt rx rx | Opt rx

fun rx_words :: "rx \<Rightarrow> string list" where
  "rx_words (Lit s) = [s]"
| "rx_words (Seq a b) = concat (map (\<lambda>x. map (\<lambda>y. x @ y) (rx_words b)) (rx_words a))"
| "rx_words (Alt a b) = rx_words a @ rx_words b"
| "rx_words (Opt a) = rx_words a @ [[]]"

definition re_search :: "rx \<Rightarrow> string \<Rightarrow> bool" where
  "re_search pattern text = list_ex (\<lambda>w. str_in w text) (rx_words pattern)"

definition feature_patterns :: "rx list" where
  "feature_patterns =
     [Seq (Lit ''would be '') (Seq (Alt (Lit ''nice'') (Alt (Lit ''great'') (Lit ''good''))) (Lit '' if'')),
      Seq (Lit ''wish '') (Alt (Lit ''it'') (Alt (Lit ''this'') (Lit ''the app''))),
      Seq (Lit ''should '') (Alt (Lit ''add'') (Alt (Lit ''have'') (Lit ''include''))),
      Seq (Lit ''need'') (Seq (Opt (Lit ''s'')) (Seq (Lit '' '') (Alt (Lit ''to'') (Alt (Lit ''a'') (Lit ''an''))))),
      Lit ''missing'',
      Lit ''please add'',
      Lit ''feature request'']"

text \<open>
  The loop over the patterns for one review: the first pattern found appends the example
  and leaves the loop (\<^verbatim>\<open>break\<close>); the later patterns are not tried.
\<close>

fun scan_patterns :: "rx list \<Rightarrow> string \<Rightarrow> review \<Rightarrow> example list \<Rightarrow> example list" where
  "scan_patterns [] text r feature_requests = feature_requests"
| "scan_patterns (pattern # patterns) text r feature_requests =
     (if re_search pattern text
      then feature_requests @ [(rating r, excerpt 300 (content r))]
      else scan_patterns patterns text r feature_requests)"

text \<open>
  The example that a review contributes as a feature request, and the reviews that some
  pattern is found in.
\<close>

definition feature_example :: "review \<Rightarrow> example" where
  "feature_example r = (rating r, excerpt 300 (content r))"

definition requests_feature :: "py_env \<Rightarrow> review \<Rightarrow> bool" where
  "requests_feature env r = list_ex (\<lambda>pattern. re_search pattern (review_text env r)) feature_patterns"

fun find_feature_requests :: "py_env \<Rightarrow> review list \<Rightarrow> example list \<Rightarrow> example list" where
  "find_feature_requests env [] feature_requests = feature_requests"
| "find_feature_requests env (r # rs) feature_requests =
     find_feature_requests env rs (scan_patterns feature_patterns (review_text env r) r feature_requests)"

record issue_stats =
  res_issue_categories :: category_counts
  total_issues_found :: nat
  feature_requests_count :: nat
  feature_request_samples :: "example list"

definition extract_keywords_and_issues :: "py_env \<Rightarrow> review list \<Rightarrow> py_error + issue_stats" where
  "extract_keywords_and_issues env reviews =
     (case low_rated_reviews env reviews of
        Inl e \<Rightarrow> Inl e
      | Inr low_rated \<Rightarrow>
          (let cc = categorize env low_rated [];
               feature_requests = find_feature_requests env reviews []
           in Inr \<lparr>res_issue_categories = cc,
                   total_issues_found = sum_list (map (\<lambda>(category, c, examples). c) cc),
                   feature_requests_count = length feature_requests,
                   feature_request_samples = take 5 feature_requests\<rparr>))"

section \<open>Concrete inputs\<close>

text \<open>A review with the given id, rating, title, content and update timestamp.\<close>

definition mk_review :: "string \<Rightarrow> string \<Rightarrow> string \<Rightarrow> string \<Rightarrow> string \<Rightarrow> review" where
  "mk_review i rt ti co up =
     \<lparr>review_id = i, author = ''a'', rating = rt, version = ''1.0'', title = ti, content = co,
      updated = up, vote_sum = ''0'', vote_count = ''0'', source = None\<rparr>"

text \<open>Two snapshots that share the id 7, with different ratings and contents.\<close>

definition merge_example :: reviews_data where
  "merge_example =
     \<lparr>most_helpful = Some [mk_review ''7'' ''2'' ''t'' ''from helpful'' [], mk_review ''1'' ''5'' ''t'' ''x'' []],
      most_recent = Some [mk_review ''7'' ''4'' ''t'' ''from recent'' [], mk_review ''2'' ''3'' ''t'' ''y'' []]\<rparr>"

text \<open>A fresh fetcher, and a network on which every request fails at the transport level.\<close>

definition world0 :: world where
  "world0 = \<lparr>pages_fetched = 0, session_total_reviews = 0, errors = 0, trace = []\<rparr>"

definition dead_net :: network where
  "dead_net = (\<lambda>t u. TransportFailure)"

text \<open>A page without entries whose only link is a \<^verbatim>\<open>next\<close> link to the given href.\<close>

definition page_with_next :: "string \<Rightarrow> payload" where
  "page_with_next h =
     Doc (Some \<lparr>feed_entry = None,
                feed_link = Some (One \<lparr>attributes = Some \<lparr>rel = Some ''next'', href = Some h\<rparr>\<rparr>),
                feed_title = None\<rparr>)"

text \<open>A feed in which the \<^verbatim>\<open>next\<close> link of every page points back to that page.\<close>

definition selfloop_net :: network where
  "selfloop_net = (\<lambda>t u. Body (page_with_next u))"

text \<open>
  A feed of two pages whose \<^verbatim>\<open>next\<close> links point to each other: the first page
  of app 1 in the most-recent ordering, and its second page.
\<close>

definition url_a :: string where
  "url_a = first_page_url ''1'' ''mostrecent''"

definition url_b :: string where
  "url_b = BASE_URL @ ''/page=2/id=1/sortby=mostrecent/json''"

definition pingpong_net :: network where
  "pingpong_net = (\<lambda>t u. Body (page_with_next (if u = url_a then url_b else url_a)))"

text \<open>The state in which the walk for app 1 in the most-recent ordering starts.\<close>

definition walk_start :: walk_state where
  "walk_start = initial_walk_state ''1'' ''now'' ''mostrecent'' world0"

section \<open>A concrete environment\<close>

text \<open>
  An environment to run the analyzer in. It agrees with Python on the inputs used
  below:
  \<^item> \<open>parse_int\<close> reads an optional sign followed by ASCII digits (Python also accepts
    surrounding whitespace and underscores between digits);
  \<^item> \<open>parse_iso\<close> reads \<^verbatim>\<open>YYYY-MM-DD\<close>, optionally followed by
    \<^verbatim>\<open>THH:MM:SS\<close> and then optionally by an offset \<^verbatim>\<open>+HH:MM\<close> or
    \<^verbatim>\<open>-HH:MM\<close>;
  \<^item> \<open>exact_float\<close> treats every rational below \<open>2 ^ 1024\<close> in absolute value as a
    float, which is right for the halves and integers that occur below;
  \<^item> \<open>round_half_even2\<close> rounds to two decimal places, ties to the even neighbour;
  \<^item> \<open>ascii_lower\<close> maps the letters A to Z to lower case.
\<close>

definition is_digit :: "char \<Rightarrow> bool" where
  "is_digit c = (CHR ''0'' \<le> c \<and> c \<le> CHR ''9'')"

definition digit_val :: "char \<Rightarrow> nat" where
  "digit_val c = of_char c - 48"

definition parse_nat :: "string \<Rightarrow> nat option" where
  "parse_nat s =
     (if s \<noteq> [] \<and> list_all is_digit s
      then Some (foldl (\<lambda>n c. 10 * n + digit_val c) 0 s)
      else None)"

definition parse_int :: "string \<Rightarrow> int option" where
  "parse_int s =
     (case s of
        [] \<Rightarrow> None
      | c # ds \<Rightarrow>
          if c = CHR ''-'' then map_option (\<lambda>n. - int n) (parse_nat ds)
          else if c = CHR ''+'' then map_option int (parse_nat ds)
          else map_option int (parse_nat s))"

definition is_leap :: "nat \<Rightarrow> bool" where
  "is_leap y = (y mod 4 = 0 \<and> (y mod 100 \<noteq> 0 \<or> y mod 400 = 0))"

definition days_in_month :: "nat \<Rightarrow> nat \<Rightarrow> nat" where
  "days_in_month y m =
     (if m = 2 then (if is_leap y then 29 else 28)
      else if m = 4 \<or> m = 6 \<or> m = 9 \<or> m = 11 then 30 else 31)"

text \<open>The number of days from 1970-01-01 to the given date of the Gregorian calendar.\<close>

definition days_from_civil :: "nat \<Rightarrow> nat \<Rightarrow> nat \<Rightarrow> int" where
  "days_from_civil y m d =
     (let y' = int y - (if m \<le> 2 then 1 else 0);
          era = y' div 400;
          yoe = y' mod 400;
          doy = (153 * (int m + (if m > 2 then - 3 else 9)) + 2) div 5 + int d - 1;
          doe = yoe * 365 + yoe div 4 - yoe div 100 + doy
      in era * 146097 + doe - 719468)"

definition parse_date :: "string \<Rightarrow> (nat \<times> nat \<times> nat) option" where
  "parse_date s =
     (if length s = 10 \<and> s ! 4 = CHR ''-'' \<and> s ! 7 = CHR ''-''
      then (case (parse_nat (take 4 s), parse_nat (take 2 (drop 5 s)), parse_nat (drop 8 s)) of
              (Some y, Some m, Some d) \<Rightarrow>
                if 1 \<le> y \<and> 1 \<le> m \<and> m \<le> 12 \<and> 1 \<le> d \<and> d \<le> days_in_month y m
                then Some (y, m, d) else None
            | _ \<Rightarrow> None)
      else None)"

text \<open>A time \<^verbatim>\<open>HH:MM:SS\<close>, in seconds.\<close>

definition parse_time :: "string \<Rightarrow> nat option" where
  "parse_time s =
     (if length s = 8 \<and> s ! 2 = CHR '':'' \<and> s ! 5 = CHR '':''
      then (case (parse_nat (take 2 s), parse_nat (take 2 (drop 3 s)), parse_nat (drop 6 s)) of
              (Some h, Some mi, Some sec) \<Rightarrow>
                if h < 24 \<and> mi < 60 \<and> sec < 60 then Some ((h * 60 + mi) * 60 + sec) else None
            | _ \<Rightarrow> None)
      else None)"

text \<open>An offset \<^verbatim>\<open>+HH:MM\<close> or \<^verbatim>\<open>-HH:MM\<close>, in seconds.\<close>

definition parse_offset :: "string \<Rightarrow> int option" where
  "parse_offset s =
     (if length s = 6 \<and> (s ! 0 = CHR ''+'' \<or> s ! 0 = CHR ''-'') \<and> s ! 3 = CHR '':''
      then (case (parse_nat (take 2 (drop 1 s)), parse_nat (drop 4 s)) of
              (Some h, Some mi) \<Rightarrow>
                if h < 24 \<and> mi < 60
                then Some ((if s ! 0 = CHR ''-'' then - 1 else 1) * int ((h * 60 + mi) * 60))
                else None
            | _ \<Rightarrow> None)
      else None)"

definition mk_datetime :: "nat \<times> nat \<times> nat \<Rightarrow> nat \<Rightarrow> int option \<Rightarrow> datetime" where
  "mk_datetime = (\<lambda>(y, m, d) secs off.
     \<lparr>dt_year = y, dt_month = m,
      dt_local = (days_from_civil y m d * 86400 + int secs) * 1000000,
      dt_utcoffset = map_option (\<lambda>s. s * 1000000) off\<rparr>)"

definition parse_iso :: "string \<Rightarrow> datetime option" where
  "parse_iso s =
     (case parse_date (take 10 s) of
        None \<Rightarrow> None
      | Some ymd \<Rightarrow>
          (let rest = drop 10 s
           in if rest = [] then Some (mk_datetime ymd 0 None)
              else if hd rest \<noteq> CHR ''T'' then None
              else (case parse_time (take 8 (tl rest)) of
                      None \<Rightarrow> None
                    | Some secs \<Rightarrow>
                        (let tz = drop 8 (tl rest)
                         in if tz = [] then Some (mk_datetime ymd secs None)
                            else (case parse_offset tz of
                                    None \<Rightarrow> None
                                  | Some off \<Rightarrow> Some (mk_datetime ymd secs (Some off)))))))"

definition exact_float :: "rat \<Rightarrow> rat option" where
  "exact_float q = (if \<bar>q\<bar> < 2 ^ 1024 then Some q else None)"

definition round_half_even :: "rat \<Rightarrow> int" where
  "round_half_even q =
     (let f = \<lfloor>q\<rfloor>; r = q - of_int f
      in if r < 1 / 2 then f
         else if r > 1 / 2 then f + 1
         else if even f then f else f + 1)"

definition round_half_even2 :: "rat \<Rightarrow> rat" where
  "round_half_even2 q = of_int (round_half_even (q * 100)) / 100"

definition lower_char :: "char \<Rightarrow> char" where
  "lower_char c = (if CHR ''A'' \<le> c \<and> c \<le> CHR ''Z'' then char_of (of_char c + (32 :: nat)) else c)"

definition ascii_lower :: "string \<Rightarrow> string" where
  "ascii_lower s = map lower_char s"

definition env0 :: py_env where
  "env0 = \<lparr>int_of_str = parse_int, fromisoformat = parse_iso, to_float = exact_float,
           round2 = round_half_even2, lower = ascii_lower\<rparr>"

text \<open>Two reviews with the ratings 2 and 5, and one whose rating is the empty string.\<close>

definition two_reviews :: "review list" where
  "two_reviews =
     [mk_review ''1'' ''2'' ''Bad'' ''App crashes constantly'' ''2024-01-15T10:00:00Z'',
      mk_review ''2'' ''5'' ''Good'' ''love the clean design'' ''2024-02-01T08:30:00-07:00'']"

definition unrated_review :: review where
  "unrated_review = mk_review ''3'' [] ''No stars'' ''the rating is missing'' ''2024-03-01T00:00:00Z''"

section \<open>Inputs for the trend analyzer\<close>

text \<open>
  The review lists below differ in their ratings and timestamps only.
  \<open>four_months\<close> has one review rated 1 in January and one rated 5 in each of the
  three months after it; \<open>four_months_stats\<close> is what the trend analyzer returns for
  it. \<open>single_month\<close> has one review, and \<open>single_month_stats\<close> is the result for
  it. \<open>naive_and_aware\<close> has one timestamp without and one with an offset.
\<close>

definition rated_at :: "string \<Rightarrow> string \<Rightarrow> review" where
  "rated_at rt up = mk_review ''r'' rt ''title'' ''content'' up"

definition four_months :: "review list" where
  "four_months =
     [rated_at ''1'' ''2024-01-10'', rated_at ''5'' ''2024-02-10'',
      rated_at ''5'' ''2024-03-10'', rated_at ''5'' ''2024-04-10'']"

definition four_months_series :: "(string \<times> nat \<times> pynum) list" where
  "four_months_series =
     [(''2024-01'', 1, PyInt 1), (''2024-02'', 1, PyInt 5), (''2024-03'', 1, PyInt 5),
      (''2024-04'', 1, PyInt 5)]"

definition four_months_stats :: trend_stats where
  "four_months_stats =
     \<lparr>monthly_trends = four_months_series, recent_trend = ''improving'',
      recent_avg_rating = PyInt 5\<rparr>"

definition single_month :: "review list" where
  "single_month = [rated_at ''5'' ''2024-02-10'']"

definition single_month_stats :: trend_stats where
  "single_month_stats =
     \<lparr>monthly_trends = [(''2024-02'', 1, PyInt 5)], recent_trend = ''stable'',
      recent_avg_rating = PyInt 5\<rparr>"

definition naive_and_aware :: "review list" where
  "naive_and_aware =
     [rated_at ''4'' ''2024-01-15'', rated_at ''5'' ''2024-02-01T08:30:00-07:00'']"

text \<open>
  Two reviews a month apart, the first in December 999 and the second in January 1000,
  and what the trend analyzer returns for them.
\<close>

definition across_year_1000 :: "review list" where
  "across_year_1000 = [rated_at ''4'' ''0999-12-15'', rated_at ''5'' ''1000-01-15'']"

definition across_year_1000_stats :: trend_stats where
  "across_year_1000_stats =
     \<lparr>monthly_trends = [(''1000-01'', 1, PyInt 5), (''999-12'', 1, PyInt 4)],
      recent_trend = ''stable'', recent_avg_rating = PyFloat (9 / 2)\<rparr>"

text \<open>A dated list holds both naive and aware timestamps.\<close>

definition mixed :: "(datetime \<times> int) list \<Rightarrow> bool" where
  "mixed xs \<longleftrightarrow> list_ex (\<lambda>x. aware (fst x)) xs \<and> list_ex (\<lambda>x. \<not> aware (fst x)) xs"

text \<open>
  What holds of \<^verbatim>\<open>monthly_stats\<close> throughout the grouping loop: no month key
  occurs twice, and every month has at least one rating, all of which satisfy \<open>P\<close>.
\<close>

definition month_inv :: "(int \<Rightarrow> bool) \<Rightarrow> (string \<times> nat \<times> int list) list \<Rightarrow> bool" where
  "month_inv P ms \<longleftrightarrow>
     distinct (map fst ms) \<and> (\<forall>(k, c, rs) \<in> set ms. rs \<noteq> [] \<and> (\<forall>x \<in> set rs. P x))"

section \<open>Inputs for the issue and feature-request extraction\<close>

text \<open>
  Four reviews. The first is rated 1 and mentions three kinds of issue and a feature
  request. The second is rated 5 and asks for a feature. The third is rated 3, names a
  bug in its title, and has a content of 201 characters. The fourth is rated 2 and
  mentions nothing.
\<close>

definition issue_reviews :: "review list" where
  "issue_reviews =
     [mk_review ''1'' ''1'' ''Slow'' ''It crashes. Please add a dark mode'' [],
      mk_review ''2'' ''5'' ''Great'' ''Would be nice if it had themes'' [],
      mk_review ''3'' ''3'' ''Bug'' (replicate 201 CHR ''x'') [],
      mk_review ''4'' ''2'' ''Meh'' ''ok'' []]"

definition issue_reviews_result :: issue_stats where
  "issue_reviews_result =
     \<lparr>res_issue_categories =
        [(''crashes_bugs'', 2,
            [(''1'', ''It crashes. Please add a dark mode''), (''3'', replicate 200 CHR ''x'' @ ''...'')]),
         (''performance'', 1, [(''1'', ''It crashes. Please add a dark mode'')]),
         (''features'', 1, [(''1'', ''It crashes. Please add a dark mode'')])],
      total_issues_found = 4,
      feature_requests_count = 2,
      feature_request_samples =
        [(''1'', ''It crashes. Please add a dark mode''), (''5'', ''Would be nice if it had themes'')]\<rparr>"

section \<open>Facts about the library model\<close>

lemma collect_Inr_iff: "collect rs = Inr xs \<longleftrightarrow> rs = map Inr xs"
proof (induction rs arbitrary: xs rule: collect.induct)
  case 1
  then show ?case by auto
next
  case (2 e rs)
  then show ?case by (cases xs) auto
next
  case (3 x rs)
  show ?case
  proof (cases xs)
    case Nil
    then show ?thesis by (simp split: sum.splits)
  next
    case (Cons y ys)
    show ?thesis using "3.IH" [of ys] unfolding Cons
      by (cases "collect rs") auto
  qed
qed

lemma collect_Inl_mem: "collect rs = Inl e \<Longrightarrow> Inl e \<in> set rs"
proof (induction rs)
  case Nil
  then show ?case by simp
next
  case (Cons r rs)
  then show ?case
    by (cases r) (auto split: sum.splits)
qed

lemma collect_map_Inr:
  assumes "\<forall>x \<in> set xs. f x = Inr (g x)"
  shows "collect (map f xs) = Inr (map g xs)"
  using assms by (simp add: collect_Inr_iff)

lemma int_ratings_Inr:
  assumes "\<forall>r \<in> set reviews. int_of_str env (rating r) \<noteq> None"
  shows "int_ratings env reviews = Inr (map (\<lambda>r. the (int_of_str env (rating r))) reviews)"
  unfolding int_ratings_def
  by (rule collect_map_Inr) (use assms in \<open>auto simp: py_int_def\<close>)

lemma int_ratings_Inl:
  assumes "\<exists>r \<in> set reviews. int_of_str env (rating r) = None"
  shows "int_ratings env reviews = Inl ValueError"
proof (cases "int_ratings env reviews")
  case (Inl e)
  then have "Inl e \<in> set (map (\<lambda>r. py_int env (rating r)) reviews)"
    unfolding int_ratings_def by (rule collect_Inl_mem)
  then have "e = ValueError"
    by (auto simp: py_int_def split: option.splits)
  with Inl show ?thesis by simp
next
  case (Inr ks)
  then have eq: "map (\<lambda>r. py_int env (rating r)) reviews = map Inr ks"
    by (simp add: int_ratings_def collect_Inr_iff)
  from assms obtain r where r: "r \<in> set reviews" "int_of_str env (rating r) = None"
    by blast
  from r(1) have "py_int env (rating r) \<in> set (map (\<lambda>r. py_int env (rating r)) reviews)"
    by simp
  then have "py_int env (rating r) \<in> set (map Inr ks)"
    by (simp only: eq)
  then show ?thesis using r(2)
    by (auto simp: py_int_def)
qed

lemma int_ratings_Inr_conv:
  assumes "int_ratings env reviews = Inr ks"
  shows "ks = map (\<lambda>r. the (int_of_str env (rating r))) reviews"
    and "\<forall>r \<in> set reviews. int_of_str env (rating r) \<noteq> None"
proof -
  show all: "\<forall>r \<in> set reviews. int_of_str env (rating r) \<noteq> None"
  proof (rule ccontr)
    assume "\<not> (\<forall>r \<in> set reviews. int_of_str env (rating r) \<noteq> None)"
    then have "int_ratings env reviews = Inl ValueError"
      by (intro int_ratings_Inl) auto
    with assms show False by simp
  qed
  from int_ratings_Inr [OF all] assms
  show "ks = map (\<lambda>r. the (int_of_str env (rating r))) reviews" by simp
qed

lemma abs_sum_list_bound:
  fixes f :: "'a \<Rightarrow> rat"
  assumes "\<forall>x \<in> set xs. \<bar>f x\<bar> \<le> b"
  shows "\<bar>sum_list (map f xs)\<bar> \<le> of_nat (length xs) * b"
  using assms
proof (induction xs)
  case Nil
  then show ?case by simp
next
  case (Cons x xs)
  then have "\<bar>sum_list (map f xs)\<bar> \<le> of_nat (length xs) * b" and "\<bar>f x\<bar> \<le> b"
    by auto
  then have "\<bar>f x + sum_list (map f xs)\<bar> \<le> b + of_nat (length xs) * b"
    by linarith
  then show ?case by (simp add: algebra_simps)
qed

lemma abs_mean_bound:
  fixes f :: "'a \<Rightarrow> rat"
  assumes "\<forall>x \<in> set xs. \<bar>f x\<bar> \<le> b" and "xs \<noteq> []"
  shows "\<bar>sum_list (map f xs) / of_nat (length xs)\<bar> \<le> b"
proof -
  have n: "(0 :: rat) < of_nat (length xs)" using assms(2) by simp
  have "\<bar>sum_list (map f xs)\<bar> \<le> of_nat (length xs) * b"
    by (rule abs_sum_list_bound [OF assms(1)])
  then have "\<bar>sum_list (map f xs)\<bar> / of_nat (length xs) \<le> b"
    using n by (simp add: pos_divide_le_eq mult.commute)
  then show ?thesis using n by simp
qed

lemma py_mean_Nil: "py_mean env [] = Inl StatisticsError"
  by (simp add: py_mean_def)

lemma py_float_returns:
  assumes "float_ok env b" and "\<bar>q\<bar> \<le> b"
  shows "\<exists>f. py_float env q = Inr (PyFloat f) \<and> \<bar>f\<bar> \<le> b"
  using assms by (fastforce simp: float_ok_def py_float_def)

lemma py_round2_bound:
  assumes "float_ok env b" and "\<bar>num_val x\<bar> \<le> b"
  shows "\<bar>num_val (py_round2 env x)\<bar> \<le> b"
  using assms by (cases x) (auto simp: float_ok_def)

lemma py_mean_returns:
  assumes "xs \<noteq> []" and "\<forall>x \<in> set xs. \<bar>num_val x\<bar> \<le> b" and "float_ok env b"
  shows "\<exists>m. py_mean env xs = Inr m \<and> \<bar>num_val m\<bar> \<le> b"
proof -
  let ?q = "sum_list (map num_val xs) / of_nat (length xs)"
  have b: "\<bar>?q\<bar> \<le> b" by (rule abs_mean_bound [OF assms(2,1)])
  show ?thesis
  proof (cases "list_all is_int xs \<and> of_int \<lfloor>?q\<rfloor> = ?q")
    case True
    then have "py_mean env xs = Inr (PyInt \<lfloor>?q\<rfloor>)"
      using assms(1) by (simp add: py_mean_def Let_def)
    moreover have "\<bar>num_val (PyInt \<lfloor>?q\<rfloor>)\<bar> \<le> b"
    proof -
      from True have e: "of_int \<lfloor>?q\<rfloor> = ?q" by blast
      show ?thesis unfolding num_val.simps e by (rule b)
    qed
    ultimately show ?thesis by blast
  next
    case False
    from py_float_returns [OF assms(3) b] obtain f where
      "py_float env ?q = Inr (PyFloat f)" "\<bar>f\<bar> \<le> b" by blast
    then have "py_mean env xs = Inr (PyFloat f) \<and> \<bar>num_val (PyFloat f)\<bar> \<le> b"
      using assms(1) False by (auto simp: py_mean_def Let_def)
    then show ?thesis by blast
  qed
qed

lemma py_mean_Inr_nonempty: "py_mean env xs = Inr m \<Longrightarrow> xs \<noteq> []"
  by (auto simp: py_mean_def)

section \<open>Facts about the concrete environment\<close>

lemma round_half_even_range: "\<lfloor>q\<rfloor> \<le> round_half_even q \<and> round_half_even q \<le> \<lceil>q\<rceil>"
proof -
  have up: "\<lfloor>q\<rfloor> + 1 \<le> \<lceil>q\<rceil>" if "q - of_int \<lfloor>q\<rfloor> \<ge> 1 / 2"
  proof -
    from that have "of_int \<lfloor>q\<rfloor> < q" by simp
    then show ?thesis by linarith
  qed
  have le: "\<lfloor>q\<rfloor> \<le> \<lceil>q\<rceil>" by linarith
  consider "q - of_int \<lfloor>q\<rfloor> < 1 / 2" | "q - of_int \<lfloor>q\<rfloor> > 1 / 2" | "q - of_int \<lfloor>q\<rfloor> = 1 / 2"
    by linarith
  then show ?thesis
  proof cases
    case 1
    then show ?thesis using le by (simp add: round_half_even_def Let_def)
  next
    case 2
    then have "round_half_even q = \<lfloor>q\<rfloor> + 1" by (simp add: round_half_even_def Let_def)
    then show ?thesis using up 2 by simp
  next
    case 3
    then have "round_half_even q = \<lfloor>q\<rfloor> \<or> round_half_even q = \<lfloor>q\<rfloor> + 1"
      by (simp add: round_half_even_def Let_def)
    then show ?thesis using up 3 le by auto
  qed
qed

lemma float_ok_env0:
  assumes "(of_int B :: rat) < 2 ^ 1024"
  shows "float_ok env0 (of_int B)"
proof -
  have conv: "\<exists>f. to_float env0 q = Some f \<and> \<bar>f\<bar> \<le> of_int B" if "\<bar>q\<bar> \<le> of_int B" for q
  proof -
    from that assms have "\<bar>q\<bar> < 2 ^ 1024" by (rule le_less_trans)
    then have "to_float env0 q = Some q"
      by (simp only: env0_def exact_float_def py_env.simps if_True)
    then show ?thesis using that by blast
  qed
  have rnd: "\<bar>round2 env0 q\<bar> \<le> of_int B" if q: "\<bar>q\<bar> \<le> of_int B" for q
  proof -
    have "- of_int B \<le> q" "q \<le> of_int B" using q by linarith+
    then have lo: "of_int (- 100 * B) \<le> q * 100" and hi: "q * 100 \<le> of_int (100 * B)"
      by simp_all
    have l: "- 100 * B \<le> \<lfloor>q * 100\<rfloor>" using lo by (simp only: le_floor_iff)
    have h: "\<lceil>q * 100\<rceil> \<le> 100 * B" using hi by (simp only: ceiling_le_iff)
    have "- 100 * B \<le> round_half_even (q * 100)" "round_half_even (q * 100) \<le> 100 * B"
      using round_half_even_range [of "q * 100"] l h by linarith+
    then have "of_int (- 100 * B) \<le> (of_int (round_half_even (q * 100)) :: rat)"
      "(of_int (round_half_even (q * 100)) :: rat) \<le> of_int (100 * B)"
      by (simp_all only: of_int_le_iff)
    then have "\<bar>of_int (round_half_even (q * 100)) / 100 :: rat\<bar> \<le> of_int B"
      by (simp add: abs_le_iff)
    then show ?thesis
      by (simp only: env0_def round_half_even2_def py_env.simps)
  qed
  show ?thesis
    unfolding float_ok_def using conv rnd by blast
qed

lemma parse_int_digit:
  "parse_int ''1'' = Some 1" "parse_int ''2'' = Some 2" "parse_int ''3'' = Some 3"
  "parse_int ''4'' = Some 4" "parse_int ''5'' = Some 5" "parse_int [] = None"
  by (simp_all add: parse_int_def parse_nat_def is_digit_def digit_val_def)

lemma float_ok_env0_5: "float_ok env0 5"
proof -
  have "(of_int 5 :: rat) < 2 ^ 1024" by simp
  from float_ok_env0 [OF this] show ?thesis by simp
qed

section \<open>Facts about printed numbers and dictionaries\<close>

lemma digit_char_inj: "a < 10 \<Longrightarrow> b < 10 \<Longrightarrow> digit_char a = digit_char b \<Longrightarrow> a = b"
proof -
  assume a: "a < 10" and b: "b < 10" and e: "digit_char a = digit_char b"
  have "(48 + a :: nat) = of_char (digit_char a)"
    using a by (simp add: digit_char_def)
  also have "\<dots> = of_char (digit_char b)"
    by (simp only: e)
  also have "\<dots> = 48 + b"
    using b by (simp add: digit_char_def)
  finally show "a = b" by simp
qed

lemma digit_char_not_minus: "d < 10 \<Longrightarrow> digit_char d \<noteq> CHR ''-''"
proof
  assume d: "d < 10" and e: "digit_char d = CHR ''-''"
  have "of_char (digit_char d) = (48 + d :: nat)" using d by (simp add: digit_char_def)
  with e show False by simp
qed

lemma dec_nonempty: "dec n \<noteq> []" "[] \<noteq> dec n"
  by (subst dec.simps, simp)+

lemma dec_last: "last (dec n) = digit_char (n mod 10)"
  by (subst dec.simps) simp

lemma dec_butlast: "butlast (dec n) = (if n < 10 then [] else dec (n div 10))"
  by (subst dec.simps) (simp add: butlast_append)

lemma dec_inj: "dec n = dec m \<Longrightarrow> n = m"
proof (induction n arbitrary: m rule: dec.induct)
  case (1 n)
  from 1(2) have "last (dec n) = last (dec m)" by simp
  then have l: "digit_char (n mod 10) = digit_char (m mod 10)"
    by (simp only: dec_last)
  then have md: "n mod 10 = m mod 10"
    by (intro digit_char_inj) simp_all
  from 1(2) have "butlast (dec n) = butlast (dec m)" by simp
  then have bl: "(if n < 10 then [] else dec (n div 10)) = (if m < 10 then [] else dec (m div 10))"
    by (simp only: dec_butlast)
  show ?case
  proof (cases "n < 10")
    case True
    with bl have "m < 10" using dec_nonempty [of "m div 10"] by (auto split: if_splits)
    with True md show ?thesis by simp
  next
    case False
    with bl have m: "\<not> m < 10" using dec_nonempty [of "n div 10"] by (auto split: if_splits)
    with False bl have "dec (n div 10) = dec (m div 10)" by simp
    from 1(1) [OF False this] have "n div 10 = m div 10" .
    with md have "10 * (n div 10) + n mod 10 = 10 * (m div 10) + m mod 10" by simp
    then show ?thesis by (simp only: mult_div_mod_eq)
  qed
qed

lemma dec_hd_not_minus: "hd (dec n) \<noteq> CHR ''-''"
proof (induction n rule: dec.induct)
  case (1 n)
  show ?case
  proof (cases "n < 10")
    case True
    then show ?thesis by (subst dec.simps) (simp add: digit_char_not_minus)
  next
    case False
    then have "hd (dec n) = hd (dec (n div 10))"
      by (subst dec.simps) (simp add: dec_nonempty)
    with 1 False show ?thesis by simp
  qed
qed

lemma py_str_inj: "py_str a = py_str b \<Longrightarrow> a = b"
proof -
  assume e: "py_str a = py_str b"
  have neg_pos: False if "x < 0" "\<not> y < 0" "py_str x = py_str y" for x y
  proof -
    from that have "CHR ''-'' # dec (nat (- x)) = dec (nat y)" by (simp add: py_str_def)
    then have "hd (CHR ''-'' # dec (nat (- x))) = hd (dec (nat y))" by (rule arg_cong)
    then have "hd (dec (nat y)) = CHR ''-''" by simp
    then show False using dec_hd_not_minus [of "nat y"] by simp
  qed
  show "a = b"
  proof (cases "a < 0"; cases "b < 0")
    assume "a < 0" "b < 0"
    with e have "dec (nat (- a)) = dec (nat (- b))" by (simp add: py_str_def)
    then have "nat (- a) = nat (- b)" by (rule dec_inj)
    with \<open>a < 0\<close> \<open>b < 0\<close> show ?thesis by simp
  next
    assume "a < 0" "\<not> b < 0"
    with e neg_pos show ?thesis by blast
  next
    assume "\<not> a < 0" "b < 0"
    with e neg_pos [of b a] show ?thesis by simp
  next
    assume "\<not> a < 0" "\<not> b < 0"
    with e have "dec (nat a) = dec (nat b)" by (simp add: py_str_def)
    then have "nat a = nat b" by (rule dec_inj)
    with \<open>\<not> a < 0\<close> \<open>\<not> b < 0\<close> show ?thesis by simp
  qed
qed


lemma dict_set_fresh: "k \<notin> fst ` set d \<Longrightarrow> dict_set k v d = d @ [(k, v)]"
  by (induction d) auto

lemma dict_set_keys:
  "map fst (dict_set k v d) = (if k \<in> fst ` set d then map fst d else map fst d @ [k])"
  by (induction d) (auto simp: rev_image_eqI)

lemma dict_set_sum:
  fixes d :: "('k \<times> nat) list"
  shows "sum_list (map snd (dict_set k v d)) + (case map_of d k of None \<Rightarrow> 0 | Some v0 \<Rightarrow> v0)
           = sum_list (map snd d) + v"
  by (induction d) auto

lemma map_of_dict_set: "map_of (dict_set k v d) = (map_of d)(k \<mapsto> v)"
  by (induction d) (auto simp: fun_eq_iff)

lemma dict_set_set: "set (dict_set k v d) \<subseteq> insert (k, v) (set d)"
  by (induction d) (auto split: if_splits)

lemma dict_set_mem: "(k, v) \<in> set (dict_set k v d)"
  by (induction d) auto

lemma dict_set_nonempty: "dict_set k v d \<noteq> []"
  by (cases d) (auto split: if_splits)

lemma dict_set_key_set: "fst ` set (dict_set k v d) = insert k (fst ` set d)"
proof -
  have "set (map fst (dict_set k v d)) = insert k (set (map fst d))"
    by (auto simp: dict_set_keys)
  then show ?thesis by simp
qed

lemma dict_set_distinct: "distinct (map fst d) \<Longrightarrow> distinct (map fst (dict_set k v d))"
  by (simp add: dict_set_keys)

section \<open>Facts about the trend analyzer\<close>

lemma add_to_month_eq:
  "add_to_month k r ms =
     dict_set k (case map_of ms k of None \<Rightarrow> (1, [r]) | Some (c, rs) \<Rightarrow> (c + 1, rs @ [r])) ms"
  by (simp add: add_to_month_def split: option.splits)

lemma add_to_month_inv:
  assumes "month_inv P ms" and "P r"
  shows "month_inv P (add_to_month k r ms)"
proof -
  let ?v = "case map_of ms k of None \<Rightarrow> (1, [r]) | Some (c, rs) \<Rightarrow> (c + 1, rs @ [r])"
  have v: "snd ?v \<noteq> [] \<and> (\<forall>x \<in> set (snd ?v). P x)"
  proof (cases "map_of ms k")
    case None
    then show ?thesis using assms(2) by simp
  next
    case (Some e)
    obtain c rs where e: "e = (c, rs)" by (cases e)
    from Some e have "(k, c, rs) \<in> set ms" by (simp add: map_of_SomeD)
    with assms(1) have "\<forall>x \<in> set rs. P x" by (auto simp: month_inv_def)
    with Some e assms(2) show ?thesis by simp
  qed
  have "\<forall>(k', c, rs) \<in> set (dict_set k ?v ms). rs \<noteq> [] \<and> (\<forall>x \<in> set rs. P x)"
  proof (intro ballI)
    fix e assume "e \<in> set (dict_set k ?v ms)"
    then have "e = (k, ?v) \<or> e \<in> set ms" using dict_set_set [of k ?v ms] by auto
    then show "case e of (k', c, rs) \<Rightarrow> rs \<noteq> [] \<and> (\<forall>x \<in> set rs. P x)"
    proof
      assume "e = (k, ?v)"
      then show ?thesis using v by (cases ?v) auto
    next
      assume "e \<in> set ms"
      with assms(1) show ?thesis by (auto simp: month_inv_def)
    qed
  qed
  moreover have "distinct (map fst (dict_set k ?v ms))"
    using assms(1) by (simp add: dict_set_distinct month_inv_def)
  ultimately show ?thesis
    unfolding add_to_month_eq month_inv_def by simp
qed

lemma add_to_month_keys:
  "fst ` set (add_to_month k r ms) = insert k (fst ` set ms)"
  by (simp only: add_to_month_eq dict_set_key_set)

lemma group_foldl_inv:
  assumes "month_inv P ms" and "\<forall>x \<in> set xs. P (snd x)"
  shows "month_inv P (foldl (\<lambda>ms (date, r). add_to_month (month_key date) r ms) ms xs)"
  using assms
proof (induction xs arbitrary: ms)
  case Nil
  then show ?case by simp
next
  case (Cons x xs)
  obtain d r where x: "x = (d, r)" by (cases x)
  have "month_inv P (add_to_month (month_key d) r ms)"
    using Cons.prems x by (intro add_to_month_inv) auto
  from Cons.IH [OF this] Cons.prems(2) show ?case by (simp add: x)
qed

lemma group_foldl_keys:
  "fst ` set (foldl (\<lambda>ms (date, r). add_to_month (month_key date) r ms) ms xs)
     = fst ` set ms \<union> month_key ` fst ` set xs"
proof (induction xs arbitrary: ms)
  case Nil
  then show ?case by simp
next
  case (Cons x xs)
  obtain d r where x: "x = (d, r)" by (cases x)
  show ?case
    by (simp add: x Cons.IH add_to_month_keys)
qed

lemma group_by_month_inv:
  "\<forall>x \<in> set xs. P (snd x) \<Longrightarrow> month_inv P (group_by_month xs)"
  unfolding group_by_month_def
  by (rule group_foldl_inv) (simp_all add: month_inv_def)

lemma group_by_month_keys:
  "fst ` set (group_by_month xs) = month_key ` fst ` set xs"
  unfolding group_by_month_def by (simp add: group_foldl_keys)

lemma month_trend_Inr:
  assumes "month_trend env e = Inr t"
  shows "fst t = fst e" and "fst (snd t) = fst (snd e)"
    and "\<exists>a. py_mean env (map PyInt (snd (snd e))) = Inr a \<and> snd (snd t) = py_round2 env a"
  using assms by (auto simp: month_trend_def split: prod.splits sum.splits)

lemma monthly_trends_keys:
  assumes "monthly_trends_of env ms = Inr trends"
  shows "map fst trends = map fst ms"
proof -
  from assms have eq: "map (month_trend env) ms = map Inr trends"
    by (simp add: monthly_trends_of_def collect_Inr_iff)
  then have len: "length ms = length trends" by (metis length_map)
  show ?thesis
  proof (rule nth_equalityI)
    show "length (map fst trends) = length (map fst ms)" using len by simp
  next
    fix i assume "i < length (map fst trends)"
    then have i: "i < length ms" "i < length trends" using len by simp_all
    from eq have "map (month_trend env) ms ! i = map Inr trends ! i" by simp
    with i have "month_trend env (ms ! i) = Inr (trends ! i)" by simp
    from month_trend_Inr(1) [OF this] i show "map fst trends ! i = map fst ms ! i" by simp
  qed
qed

lemma monthly_trends_returns:
  assumes "month_inv (\<lambda>x. \<bar>of_int x :: rat\<bar> \<le> b) ms" and "float_ok env b"
  shows "\<exists>trends. monthly_trends_of env ms = Inr trends \<and>
           (\<forall>t \<in> set trends. \<bar>num_val (snd (snd t))\<bar> \<le> b)"
proof -
  have each: "\<exists>t. month_trend env e = Inr t \<and> \<bar>num_val (snd (snd t))\<bar> \<le> b" if "e \<in> set ms" for e
  proof -
    obtain m c rs where e: "e = (m, c, rs)" by (cases e)
    from that e assms(1) have rs: "rs \<noteq> []" "\<forall>x \<in> set rs. \<bar>of_int x :: rat\<bar> \<le> b"
      by (auto simp: month_inv_def)
    then have "map PyInt rs \<noteq> []" "\<forall>x \<in> set (map PyInt rs). \<bar>num_val x\<bar> \<le> b" by auto
    from py_mean_returns [OF this assms(2)] obtain a where
      a: "py_mean env (map PyInt rs) = Inr a" "\<bar>num_val a\<bar> \<le> b" by blast
    have "month_trend env e = Inr (m, c, py_round2 env a)"
      by (simp add: month_trend_def e a(1))
    moreover have "\<bar>num_val (py_round2 env a)\<bar> \<le> b"
      by (rule py_round2_bound [OF assms(2) a(2)])
    ultimately show ?thesis by simp
  qed
  define g where "g e = (SOME t. month_trend env e = Inr t \<and> \<bar>num_val (snd (snd t))\<bar> \<le> b)" for e
  have g: "month_trend env e = Inr (g e) \<and> \<bar>num_val (snd (snd (g e)))\<bar> \<le> b" if "e \<in> set ms" for e
    unfolding g_def using each [OF that] by (rule someI_ex)
  then have "collect (map (month_trend env) ms) = Inr (map g ms)"
    by (intro collect_map_Inr) simp
  moreover have "\<forall>t \<in> set (map g ms). \<bar>num_val (snd (snd t))\<bar> \<le> b"
    using g by auto
  ultimately show ?thesis
    unfolding monthly_trends_of_def by blast
qed

lemma avg_ratings_found:
  assumes "set months \<subseteq> fst ` set trends"
  shows "length (avg_ratings trends months) = length months"
    and "set (avg_ratings trends months) \<subseteq> (\<lambda>t. snd (snd t)) ` set trends"
proof -
  have one: "\<exists>c a. map_of trends m = Some (c, a) \<and> (m, c, a) \<in> set trends" if "m \<in> fst ` set trends" for m
  proof -
    from that obtain e where "map_of trends m = Some e"
      by (metis map_of_eq_None_iff not_Some_eq)
    moreover from this have "(m, e) \<in> set trends" by (rule map_of_SomeD)
    ultimately show ?thesis by (cases e) auto
  qed
  from assms show "length (avg_ratings trends months) = length months"
  proof (induction months)
    case Nil
    then show ?case by (simp add: avg_ratings_def)
  next
    case (Cons m months)
    then obtain c a where "map_of trends m = Some (c, a)" using one [of m] by auto
    with Cons show ?case by (simp add: avg_ratings_def)
  qed
  from assms show "set (avg_ratings trends months) \<subseteq> (\<lambda>t. snd (snd t)) ` set trends"
  proof (induction months)
    case Nil
    then show ?case by (simp add: avg_ratings_def)
  next
    case (Cons m months)
    then obtain c a where ca: "map_of trends m = Some (c, a)" "(m, c, a) \<in> set trends"
      using one [of m] by auto
    then have "a \<in> (\<lambda>t. snd (snd t)) ` set trends" by force
    with Cons ca(1) show ?case by (simp add: avg_ratings_def)
  qed
qed

lemma last_n_subset: "set (last_n n xs) \<subseteq> set xs"
  by (simp add: last_n_def set_drop_subset)

lemma last_n_nonempty: "xs \<noteq> [] \<Longrightarrow> 0 < n \<Longrightarrow> last_n n xs \<noteq> []"
  by (cases xs) (auto simp: last_n_def)

lemma last_n_length: "length (last_n n xs) \<le> n"
  by (simp add: last_n_def)

lemma slice_subset: "set (slice_m6_m3 xs) \<subseteq> set xs"
  unfolding slice_m6_m3_def
  by (meson set_drop_subset set_take_subset subset_trans)

lemma slice_empty_iff: "slice_m6_m3 xs = [] \<longleftrightarrow> length xs \<le> 3"
  by (auto simp: slice_m6_m3_def)

lemma sort_dated_mixed: "mixed xs \<Longrightarrow> sort_dated xs = Inl TypeError"
  by (simp add: sort_dated_def mixed_def)

lemma sort_dated_Inr:
  "\<not> mixed xs \<Longrightarrow> sort_dated xs = Inr (sort_key (\<lambda>x. dt_sort_key (fst x)) xs)"
  by (simp add: sort_dated_def mixed_def)

lemma sort_dated_Inr_conv:
  "sort_dated xs = Inr ys \<Longrightarrow> \<not> mixed xs \<and> set ys = set xs \<and> length ys = length xs"
  by (auto simp: sort_dated_def mixed_def split: if_splits)

lemma trend_windows_Nil:
  assumes "dated_reviews env reviews = []"
  shows "trend_windows env reviews = Inl StatisticsError"
  by (simp add: trend_windows_def assms sort_dated_def group_by_month_def monthly_trends_of_def
        last_n_def avg_ratings_def py_mean_def)

lemma trend_windows_mixed:
  assumes "mixed (dated_reviews env reviews)"
  shows "trend_windows env reviews = Inl TypeError"
  by (simp add: trend_windows_def sort_dated_mixed [OF assms])

lemma trend_windows_Inr:
  assumes "trend_windows env reviews = Inr (trends, recent_avg, previous_avg)"
  shows "\<not> mixed (dated_reviews env reviews)"
    and "distinct (map fst trends)"
    and "set (map fst trends) = month_key ` fst ` set (dated_reviews env reviews)"
    and "py_mean env (avg_ratings trends (last_n 3 (sort (map fst trends)))) = Inr recent_avg"
    and "length trends \<le> 3 \<Longrightarrow> previous_avg = recent_avg"
    and "3 < length trends \<Longrightarrow>
           py_mean env (avg_ratings trends (slice_m6_m3 (sort (map fst trends)))) = Inr previous_avg"
proof -
  from assms obtain sorted_reviews where s: "sort_dated (dated_reviews env reviews) = Inr sorted_reviews"
    by (cases "sort_dated (dated_reviews env reviews)") (simp_all add: trend_windows_def)
  from assms s obtain trends' where
    t': "monthly_trends_of env (group_by_month sorted_reviews) = Inr trends'"
    by (cases "monthly_trends_of env (group_by_month sorted_reviews)") (simp_all add: trend_windows_def)
  from assms s t' obtain recent where
    r: "py_mean env (avg_ratings trends' (last_n 3 (sort (map fst trends')))) = Inr recent"
    by (cases "py_mean env (avg_ratings trends' (last_n 3 (sort (map fst trends'))))")
       (simp_all add: trend_windows_def Let_def)
  have eq: "trends' = trends \<and> recent = recent_avg \<and>
      (if slice_m6_m3 (sort (map fst trends')) \<noteq> []
       then py_mean env (avg_ratings trends' (slice_m6_m3 (sort (map fst trends')))) = Inr previous_avg
       else previous_avg = recent_avg)"
    using assms s t' r
    by (auto simp: trend_windows_def Let_def split: if_splits sum.splits)
  from sort_dated_Inr_conv [OF s] show "\<not> mixed (dated_reviews env reviews)" by simp
  have keys: "map fst trends = map fst (group_by_month sorted_reviews)"
    using monthly_trends_keys [OF t'] eq by simp
  have "month_inv (\<lambda>x. True) (group_by_month sorted_reviews)"
    by (rule group_by_month_inv) simp
  then show "distinct (map fst trends)"
    by (simp add: keys month_inv_def)
  show "set (map fst trends) = month_key ` fst ` set (dated_reviews env reviews)"
    using group_by_month_keys [of sorted_reviews] sort_dated_Inr_conv [OF s]
    by (simp add: keys)
  show "py_mean env (avg_ratings trends (last_n 3 (sort (map fst trends)))) = Inr recent_avg"
    using r eq by simp
  from eq have e1: "trends' = trends" by blast
  from eq have e3: "if slice_m6_m3 (sort (map fst trends)) \<noteq> []
       then py_mean env (avg_ratings trends (slice_m6_m3 (sort (map fst trends)))) = Inr previous_avg
       else previous_avg = recent_avg"
    unfolding e1 by blast
  show "previous_avg = recent_avg" if "length trends \<le> 3"
  proof -
    from that have "slice_m6_m3 (sort (map fst trends)) = []" by (simp add: slice_empty_iff)
    with e3 show ?thesis by simp
  qed
  show "py_mean env (avg_ratings trends (slice_m6_m3 (sort (map fst trends)))) = Inr previous_avg"
    if "3 < length trends"
  proof -
    from that have "slice_m6_m3 (sort (map fst trends)) \<noteq> []" by (simp add: slice_empty_iff)
    with e3 show ?thesis by simp
  qed
qed

lemma trend_windows_returns:
  assumes "dated_reviews env reviews \<noteq> []"
    and "\<not> mixed (dated_reviews env reviews)"
    and "\<forall>x \<in> set (dated_reviews env reviews). \<bar>of_int (snd x) :: rat\<bar> \<le> b"
    and "float_ok env b"
  shows "\<exists>w. trend_windows env reviews = Inr w"
proof -
  define dated where "dated = dated_reviews env reviews"
  define sorted_reviews where "sorted_reviews = sort_key (\<lambda>x. dt_sort_key (fst x)) dated"
  have s: "sort_dated dated = Inr sorted_reviews"
    unfolding sorted_reviews_def dated_def by (rule sort_dated_Inr [OF assms(2)])
  have set_s: "set sorted_reviews = set dated"
    by (simp add: sorted_reviews_def)
  have "\<forall>x \<in> set sorted_reviews. \<bar>of_int (snd x) :: rat\<bar> \<le> b"
    unfolding set_s dated_def by (rule assms(3))
  then have "month_inv (\<lambda>x. \<bar>of_int x :: rat\<bar> \<le> b) (group_by_month sorted_reviews)"
    by (rule group_by_month_inv)
  from monthly_trends_returns [OF this assms(4)] obtain trends where
    t: "monthly_trends_of env (group_by_month sorted_reviews) = Inr trends"
    and tb: "\<forall>t \<in> set trends. \<bar>num_val (snd (snd t))\<bar> \<le> b"
    by blast
  have "map fst trends = map fst (group_by_month sorted_reviews)"
    by (rule monthly_trends_keys [OF t])
  then have "set (map fst trends) = fst ` set (group_by_month sorted_reviews)"
    by simp
  also have "\<dots> = month_key ` fst ` set sorted_reviews"
    by (rule group_by_month_keys)
  finally have keys: "set (map fst trends) = month_key ` fst ` set dated"
    by (simp only: set_s)
  from assms(1) obtain x where "x \<in> set dated"
    unfolding dated_def by (cases "dated_reviews env reviews") auto
  then have "month_key (fst x) \<in> set (map fst trends)"
    unfolding keys by (intro imageI)
  then have "month_key (fst x) \<in> set (sort (map fst trends))"
    by (simp only: set_sort)
  then have ne: "sort (map fst trends) \<noteq> []"
    by (cases "sort (map fst trends)") simp_all
  have avg: "\<exists>a. py_mean env (avg_ratings trends months) = Inr a"
    if m1: "months \<noteq> []" and m2: "set months \<subseteq> set (sort (map fst trends))" for months
  proof -
    from m2 have sub: "set months \<subseteq> fst ` set trends" by simp
    have "length (avg_ratings trends months) = length months"
      by (rule avg_ratings_found(1) [OF sub])
    with m1 have a1: "avg_ratings trends months \<noteq> []" by (metis length_0_conv)
    have a2: "\<forall>x \<in> set (avg_ratings trends months). \<bar>num_val x\<bar> \<le> b"
    proof
      fix x assume "x \<in> set (avg_ratings trends months)"
      with avg_ratings_found(2) [OF sub] obtain t where "t \<in> set trends" "x = snd (snd t)"
        by blast
      with tb show "\<bar>num_val x\<bar> \<le> b" by simp
    qed
    from py_mean_returns [OF a1 a2 assms(4)] show ?thesis by blast
  qed
  have "last_n 3 (sort (map fst trends)) \<noteq> []"
    by (rule last_n_nonempty [OF ne]) simp
  from avg [OF this last_n_subset] obtain recent where
    r: "py_mean env (avg_ratings trends (last_n 3 (sort (map fst trends)))) = Inr recent"
    by blast
  have unfold: "trend_windows env reviews =
      (if slice_m6_m3 (sort (map fst trends)) \<noteq> []
       then (case py_mean env (avg_ratings trends (slice_m6_m3 (sort (map fst trends)))) of
               Inl e \<Rightarrow> Inl e
             | Inr previous_avg \<Rightarrow> Inr (trends, recent, previous_avg))
       else Inr (trends, recent, recent))"
    using s t r unfolding dated_def
    by (simp only: trend_windows_def Let_def sum.case)
  show ?thesis
  proof (cases "slice_m6_m3 (sort (map fst trends)) = []")
    case True
    then show ?thesis by (simp add: unfold)
  next
    case False
    from avg [OF False slice_subset] obtain previous where
      "py_mean env (avg_ratings trends (slice_m6_m3 (sort (map fst trends)))) = Inr previous"
      by blast
    with False show ?thesis by (simp add: unfold)
  qed
qed

lemma analyze_trends_Inr:
  assumes "analyze_temporal_trends env reviews = Inr stats"
  obtains trends recent_avg previous_avg where
    "trend_windows env reviews = Inr (trends, recent_avg, previous_avg)"
    "stats = \<lparr>monthly_trends = last_n 12 (sort_key fst trends),
              recent_trend = classify_trend recent_avg previous_avg,
              recent_avg_rating = py_round2 env recent_avg\<rparr>"
  using assms
  by (auto simp: analyze_temporal_trends_def split: sum.splits prod.splits)

section \<open>The trend analyzer on concrete inputs\<close>

lemma trend_windows_card:
  assumes "trend_windows env reviews = Inr (trends, recent_avg, previous_avg)"
  shows "card (month_key ` fst ` set (dated_reviews env reviews)) = length trends"
proof -
  have "card (set (map fst trends)) = length (map fst trends)"
    by (rule distinct_card [OF trend_windows_Inr(2) [OF assms]])
  then show ?thesis
    by (simp only: trend_windows_Inr(3) [OF assms] length_map)
qed

lemma four_months_windows:
  "trend_windows env0 four_months = Inr (four_months_series, PyInt 5, PyInt 1)"
  by code_simp

lemma four_months_series_sorted: "last_n 12 (sort_key fst four_months_series) = four_months_series"
  by code_simp

lemma four_months_trends:
  "analyze_temporal_trends env0 four_months = Inr four_months_stats"
  by (simp add: analyze_temporal_trends_def four_months_windows classify_trend_def
        four_months_series_sorted four_months_stats_def)

lemma four_months_card: "card (month_key ` fst ` set (dated_reviews env0 four_months)) = 4"
  using trend_windows_card [OF four_months_windows] by (simp add: four_months_series_def)

lemma single_month_windows:
  "trend_windows env0 single_month = Inr ([(''2024-02'', 1, PyInt 5)], PyInt 5, PyInt 5)"
  by code_simp

lemma single_month_trends:
  "analyze_temporal_trends env0 single_month = Inr single_month_stats"
  by (simp add: analyze_temporal_trends_def single_month_windows classify_trend_def last_n_def
        single_month_stats_def)

lemma single_month_card:
  "card (month_key ` fst ` set (dated_reviews env0 single_month)) = 1"
  using trend_windows_card [OF single_month_windows] by simp

lemma naive_and_aware_mixed: "mixed (dated_reviews env0 naive_and_aware)"
  by code_simp

lemma unrated_review_parses:
  "fromisoformat env0 (str_replace ''Z'' ''+00:00'' (updated unrated_review)) \<noteq> None"
  by code_simp

lemma four_months_ratings:
  "\<forall>r \<in> set four_months. \<forall>k. int_of_str env0 (rating r) = Some k \<longrightarrow> \<bar>of_int k :: rat\<bar> \<le> 5"
  by (simp add: four_months_def rated_at_def mk_review_def env0_def parse_int_digit)

section \<open>Facts about the issue and feature-request extraction\<close>

lemma count_issue_eq:
  "count_issue category r cc = dict_set category (issue_step r (issue_entry cc category)) cc"
  by (cases "issue_entry cc category")
     (simp add: count_issue_def issue_step_def issue_entry_def issue_example_def)

lemma count_issue_map_of:
  "map_of (count_issue category r cc) = (map_of cc)(category \<mapsto> issue_step r (issue_entry cc category))"
  by (simp only: count_issue_eq map_of_dict_set)

lemma count_issue_keys:
  "fst ` set (count_issue category r cc) = insert category (fst ` set cc)"
  by (simp only: count_issue_eq dict_set_key_set)

lemma count_issue_distinct:
  "distinct (map fst cc) \<Longrightarrow> distinct (map fst (count_issue category r cc))"
  by (simp only: count_issue_eq dict_set_distinct)

lemma categorize_review_other:
  "category \<notin> fst ` set cats \<Longrightarrow>
     map_of (categorize_review cats text r cc) category = map_of cc category"
proof (induction cats arbitrary: cc)
  case Nil
  then show ?case by simp
next
  case (Cons p cats)
  obtain c kws where p: "p = (c, kws)" by (cases p)
  from Cons.prems p have ne: "c \<noteq> category" and rest: "category \<notin> fst ` set cats" by auto
  show ?case
    using Cons.IH [OF rest] ne by (simp add: p count_issue_map_of)
qed

lemma categorize_review_map_of:
  assumes "distinct (map fst cats)" and "(category, keywords) \<in> set cats"
  shows "map_of (categorize_review cats text r cc) category =
           (if any_keyword keywords text then Some (issue_step r (issue_entry cc category))
            else map_of cc category)"
  using assms
proof (induction cats arbitrary: cc)
  case Nil
  then show ?case by simp
next
  case (Cons p cats)
  obtain c kws where p: "p = (c, kws)" by (cases p)
  show ?case
  proof (cases "c = category")
    case True
    with Cons.prems p have kws: "kws = keywords" and out: "category \<notin> fst ` set cats"
      by (auto simp: rev_image_eqI)
    show ?thesis
      using categorize_review_other [OF out] by (simp add: p True kws count_issue_map_of)
  next
    case False
    with Cons.prems p have d: "distinct (map fst cats)" and m: "(category, keywords) \<in> set cats"
      by auto
    have e: "issue_entry (count_issue c r cc) category = issue_entry cc category"
      using False by (simp add: issue_entry_def count_issue_map_of)
    show ?thesis
      using Cons.IH [OF d m] False by (simp add: p count_issue_map_of e)
  qed
qed

lemma categorize_review_keys:
  "fst ` set (categorize_review cats text r cc) \<subseteq> fst ` set cats \<union> fst ` set cc"
proof (induction cats arbitrary: cc)
  case Nil
  then show ?case by simp
next
  case (Cons p cats)
  obtain c kws where p: "p = (c, kws)" by (cases p)
  show ?case
    using Cons.IH [of "count_issue c r cc"] Cons.IH [of cc]
    by (auto simp: p count_issue_keys)
qed

lemma categorize_review_distinct:
  "distinct (map fst cc) \<Longrightarrow> distinct (map fst (categorize_review cats text r cc))"
proof (induction cats arbitrary: cc)
  case Nil
  then show ?case by simp
next
  case (Cons p cats)
  obtain c kws where p: "p = (c, kws)" by (cases p)
  show ?case
    using Cons.prems by (auto simp: p intro!: Cons.IH count_issue_distinct)
qed

lemma issue_steps:
  "length examples \<le> 3 \<Longrightarrow>
     foldl (\<lambda>e r. issue_step r e) (c, examples) ms
       = (c + length ms, examples @ map issue_example (take (3 - length examples) ms))"
proof (induction ms arbitrary: c examples)
  case Nil
  then show ?case by simp
next
  case (Cons m ms)
  show ?case
  proof (cases "length examples < 3")
    case True
    then have "length (examples @ [issue_example m]) \<le> 3" by simp
    from Cons.IH [OF this, of "c + 1"] True show ?thesis
      by (simp add: issue_step_def Suc_diff_Suc take_Cons')
  next
    case False
    with Cons.prems have l: "length examples = 3" by simp
    from Cons.IH [OF Cons.prems, of "c + 1"] l show ?thesis
      by (simp add: issue_step_def)
  qed
qed

lemma categorize_map_of:
  assumes "(category, keywords) \<in> set issue_categories" and "distinct (map fst issue_categories)"
  shows "map_of (categorize env rs cc) category =
           (let ms = filter (\<lambda>r. any_keyword keywords (review_text env r)) rs
            in if ms = [] then map_of cc category
               else Some (foldl (\<lambda>e r. issue_step r e) (issue_entry cc category) ms))"
proof (induction rs arbitrary: cc)
  case Nil
  then show ?case by simp
next
  case (Cons r rs)
  let ?cc = "categorize_review issue_categories (review_text env r) r cc"
  have step: "map_of ?cc category =
           (if any_keyword keywords (review_text env r) then Some (issue_step r (issue_entry cc category))
            else map_of cc category)"
    by (rule categorize_review_map_of [OF assms(2,1)])
  show ?case
  proof (cases "any_keyword keywords (review_text env r)")
    case True
    then have e: "issue_entry ?cc category = issue_step r (issue_entry cc category)"
      using step by (simp add: issue_entry_def)
    show ?thesis
      using True by (simp add: Cons.IH [of ?cc] Let_def e step)
  next
    case False
    then have e: "issue_entry ?cc category = issue_entry cc category"
      using step by (simp add: issue_entry_def)
    show ?thesis
      using False by (simp add: Cons.IH [of ?cc] Let_def e step)
  qed
qed

lemma categorize_keys:
  "fst ` set (categorize env rs cc) \<subseteq> fst ` set issue_categories \<union> fst ` set cc"
proof (induction rs arbitrary: cc)
  case Nil
  then show ?case by simp
next
  case (Cons r rs)
  show ?case
    using Cons.IH [of "categorize_review issue_categories (review_text env r) r cc"]
      categorize_review_keys [of issue_categories "review_text env r" r cc]
    by auto
qed

lemma categorize_distinct:
  "distinct (map fst cc) \<Longrightarrow> distinct (map fst (categorize env rs cc))"
  by (induction rs arbitrary: cc) (simp_all add: categorize_review_distinct)

lemma issue_categories_distinct: "distinct (map fst issue_categories)"
  by (simp add: issue_categories_def)

lemma low_rated_reviews_Inr:
  assumes "\<forall>r \<in> set reviews. int_of_str env (rating r) \<noteq> None"
  shows "low_rated_reviews env reviews
           = Inr (filter (\<lambda>r. the (int_of_str env (rating r)) \<le> 3) reviews)"
  using assms by (induction reviews) (auto simp: py_int_def)

lemma low_rated_reviews_Inl:
  assumes "\<exists>r \<in> set reviews. int_of_str env (rating r) = None"
  shows "low_rated_reviews env reviews = Inl ValueError"
  using assms
proof (induction reviews)
  case Nil
  then show ?case by simp
next
  case (Cons r rs)
  show ?case
  proof (cases "int_of_str env (rating r)")
    case None
    then show ?thesis by (simp add: py_int_def)
  next
    case (Some k)
    with Cons have "low_rated_reviews env rs = Inl ValueError" by auto
    with Some show ?thesis by (simp add: py_int_def)
  qed
qed

lemma scan_patterns_eq:
  "scan_patterns patterns text r feature_requests =
     (if list_ex (\<lambda>pattern. re_search pattern text) patterns
      then feature_requests @ [feature_example r] else feature_requests)"
  by (induction patterns) (simp_all add: feature_example_def)

lemma find_feature_requests_eq:
  "find_feature_requests env rs feature_requests =
     feature_requests @ map feature_example (filter (requests_feature env) rs)"
  by (induction rs arbitrary: feature_requests)
     (simp_all add: scan_patterns_eq requests_feature_def)

lemma extract_Inr:
  assumes "\<forall>r \<in> set reviews. int_of_str env (rating r) \<noteq> None"
  shows "extract_keywords_and_issues env reviews =
           Inr \<lparr>res_issue_categories =
                  categorize env (filter (\<lambda>r. the (int_of_str env (rating r)) \<le> 3) reviews) [],
                total_issues_found =
                  sum_list (map (\<lambda>(category, c, examples). c)
                    (categorize env (filter (\<lambda>r. the (int_of_str env (rating r)) \<le> 3) reviews) [])),
                feature_requests_count = length (filter (requests_feature env) reviews),
                feature_request_samples = take 5 (map feature_example (filter (requests_feature env) reviews))\<rparr>"
  by (simp add: extract_keywords_and_issues_def low_rated_reviews_Inr [OF assms] Let_def
        find_feature_requests_eq)

lemma extract_Inl:
  assumes "\<exists>r \<in> set reviews. int_of_str env (rating r) = None"
  shows "extract_keywords_and_issues env reviews = Inl ValueError"
  by (simp add: extract_keywords_and_issues_def low_rated_reviews_Inl [OF assms])

lemma issue_reviews_ratings: "\<forall>r \<in> set issue_reviews. int_of_str env0 (rating r) \<noteq> None"
  by (simp add: issue_reviews_def mk_review_def env0_def parse_int_digit)

lemma issue_reviews_value:
  "extract_keywords_and_issues env0 issue_reviews = Inr issue_reviews_result"
  by code_simp

section \<open>The merge keeps each id once, first seen first\<close>

lemma add_reviews_seen:
  "snd (add_reviews src rs (acc, seen)) = seen \<union> review_id ` set rs"
  by (induction rs arbitrary: acc seen) auto

lemma add_reviews_ids:
  "review_id ` set (fst (add_reviews src rs (acc, seen)))
     = review_id ` set acc \<union> (review_id ` set rs - seen)"
  by (induction rs arbitrary: acc seen) auto

lemma add_reviews_distinct:
  "distinct (map review_id acc) \<Longrightarrow> review_id ` set acc \<subseteq> seen
     \<Longrightarrow> distinct (map review_id (fst (add_reviews src rs (acc, seen))))"
proof (induction rs arbitrary: acc seen)
  case Nil
  then show ?case by simp
next
  case (Cons x xs)
  show ?case
  proof (cases "review_id x \<in> seen")
    case True
    then show ?thesis using Cons.IH [OF Cons.prems] by simp
  next
    case False
    let ?acc = "acc @ [x\<lparr>source := Some src\<rparr>]"
    have d: "distinct (map review_id ?acc)"
      using Cons.prems False by auto
    have s: "review_id ` set ?acc \<subseteq> insert (review_id x) seen"
      using Cons.prems by auto
    show ?thesis using Cons.IH [OF d s] False by simp
  qed
qed

lemma add_reviews_members:
  "r \<in> set (fst (add_reviews src rs (acc, seen))) \<Longrightarrow>
     r \<in> set acc \<or>
     (review_id r \<notin> seen \<and>
      (\<exists>r0. first_with_id (review_id r) rs = Some r0 \<and> r = r0\<lparr>source := Some src\<rparr>))"
proof (induction rs arbitrary: acc seen)
  case Nil
  then show ?case by simp
next
  case (Cons x xs)
  show ?case
  proof (cases "review_id x \<in> seen")
    case True
    with Cons.prems have "r \<in> set (fst (add_reviews src xs (acc, seen)))" by simp
    from Cons.IH [OF this] have
      "r \<in> set acc \<or> (review_id r \<notin> seen \<and>
        (\<exists>r0. first_with_id (review_id r) xs = Some r0 \<and> r = r0\<lparr>source := Some src\<rparr>))" .
    moreover have "review_id r \<notin> seen \<Longrightarrow>
        first_with_id (review_id r) (x # xs) = first_with_id (review_id r) xs"
      using True by (auto simp: first_with_id_def)
    ultimately show ?thesis by metis
  next
    case False
    let ?x = "x\<lparr>source := Some src\<rparr>"
    from False Cons.prems
    have "r \<in> set (fst (add_reviews src xs (acc @ [?x], insert (review_id x) seen)))"
      by simp
    from Cons.IH [OF this] have
      "r \<in> set (acc @ [?x]) \<or> (review_id r \<notin> insert (review_id x) seen \<and>
        (\<exists>r0. first_with_id (review_id r) xs = Some r0 \<and> r = r0\<lparr>source := Some src\<rparr>))" .
    then consider "r \<in> set acc" | "r = ?x"
      | "review_id r \<noteq> review_id x" "review_id r \<notin> seen"
        "\<exists>r0. first_with_id (review_id r) xs = Some r0 \<and> r = r0\<lparr>source := Some src\<rparr>"
      by auto
    then show ?thesis
    proof cases
      case 1
      then show ?thesis by simp
    next
      case 2
      have same: "review_id r = review_id x" using 2 by simp
      then have "first_with_id (review_id r) (x # xs) = Some x"
        by (simp add: first_with_id_def)
      then show ?thesis using 2 False same by metis
    next
      case 3
      have "first_with_id (review_id r) (x # xs) = first_with_id (review_id r) xs"
        using 3(1) by (auto simp: first_with_id_def)
      then show ?thesis using 3 by metis
    qed
  qed
qed

lemma count_list_distinct:
  "distinct xs \<Longrightarrow> x \<in> set xs \<Longrightarrow> count_list xs x = 1"
  by (induction xs) (auto simp: count_list_0_iff)

lemma add_reviews_Nil: "add_reviews src [] st = st"
  by (cases st) simp

lemma get_all_reviews_unfold:
  "get_all_reviews rd =
     fst (add_reviews ''most_recent'' (ordering_reviews (most_recent rd))
           (add_reviews ''most_helpful'' (ordering_reviews (most_helpful rd)) ([], {})))"
  by (simp add: get_all_reviews_def add_source_def ordering_reviews_def add_reviews_Nil
        split: option.splits)

lemma get_all_reviews_ids:
  "review_id ` set (get_all_reviews rd)
     = review_id ` (set (ordering_reviews (most_helpful rd)) \<union> set (ordering_reviews (most_recent rd)))"
proof -
  let ?A = "ordering_reviews (most_helpful rd)" and ?B = "ordering_reviews (most_recent rd)"
  obtain acc seen where st: "add_reviews ''most_helpful'' ?A ([], {}) = (acc, seen)"
    by (cases "add_reviews ''most_helpful'' ?A ([], {})")
  have seen: "seen = review_id ` set ?A"
    using add_reviews_seen [of "''most_helpful''" ?A "[]" "{}"] st by simp
  have acc: "review_id ` set acc = review_id ` set ?A"
    using add_reviews_ids [of "''most_helpful''" ?A "[]" "{}"] st by simp
  show ?thesis
    unfolding get_all_reviews_unfold st
    by (simp only: add_reviews_ids acc seen) blast
qed

lemma get_all_reviews_distinct:
  "distinct (map review_id (get_all_reviews rd))"
proof -
  let ?A = "ordering_reviews (most_helpful rd)" and ?B = "ordering_reviews (most_recent rd)"
  obtain acc seen where st: "add_reviews ''most_helpful'' ?A ([], {}) = (acc, seen)"
    by (cases "add_reviews ''most_helpful'' ?A ([], {})")
  have seen: "seen = review_id ` set ?A"
    using add_reviews_seen [of "''most_helpful''" ?A "[]" "{}"] st by simp
  have acc: "review_id ` set acc = review_id ` set ?A"
    using add_reviews_ids [of "''most_helpful''" ?A "[]" "{}"] st by simp
  have d: "distinct (map review_id acc)"
    using add_reviews_distinct [of "[]" "{}" "''most_helpful''" ?A] st by simp
  show ?thesis
    unfolding get_all_reviews_unfold st
    by (rule add_reviews_distinct [OF d]) (simp add: acc seen)
qed

lemma first_with_id_None: "first_with_id i rs = None \<longleftrightarrow> i \<notin> review_id ` set rs"
  by (auto simp: first_with_id_def find_None_iff)

lemma get_all_reviews_members:
  assumes "r \<in> set (get_all_reviews rd)"
  shows "case first_with_id (review_id r) (ordering_reviews (most_helpful rd)) of
           Some r0 \<Rightarrow> r = r0\<lparr>source := Some ''most_helpful''\<rparr>
         | None \<Rightarrow>
            (case first_with_id (review_id r) (ordering_reviews (most_recent rd)) of
               Some r0 \<Rightarrow> r = r0\<lparr>source := Some ''most_recent''\<rparr>
             | None \<Rightarrow> False)"
proof -
  let ?A = "ordering_reviews (most_helpful rd)" and ?B = "ordering_reviews (most_recent rd)"
  obtain acc seen where st: "add_reviews ''most_helpful'' ?A ([], {}) = (acc, seen)"
    by (cases "add_reviews ''most_helpful'' ?A ([], {})")
  have seen: "seen = review_id ` set ?A"
    using add_reviews_seen [of "''most_helpful''" ?A "[]" "{}"] st by simp
  from assms have "r \<in> set (fst (add_reviews ''most_recent'' ?B (acc, seen)))"
    unfolding get_all_reviews_unfold st .
  from add_reviews_members [OF this]
  consider (old) "r \<in> set acc"
    | (new) r0 where "review_id r \<notin> seen" "first_with_id (review_id r) ?B = Some r0"
        "r = r0\<lparr>source := Some ''most_recent''\<rparr>"
    by blast
  then show ?thesis
  proof cases
    case old
    then have "r \<in> set (fst (add_reviews ''most_helpful'' ?A ([], {})))"
      using st by simp
    from add_reviews_members [OF this]
    obtain r0 where "first_with_id (review_id r) ?A = Some r0"
      "r = r0\<lparr>source := Some ''most_helpful''\<rparr>"
      by auto
    then show ?thesis by simp
  next
    case new
    from new(1) have "first_with_id (review_id r) ?A = None"
      by (simp add: first_with_id_None seen)
    then show ?thesis using new(2,3) by simp
  qed
qed

text \<open>
  C1. For every pair of input orderings, every id that occurs in either of them occurs
  exactly once among the merged reviews, the merged reviews carry no other id, and each
  merged review is the first review with its id in the most-helpful ordering, or, when
  that ordering has none, the first one in the most-recent ordering, unchanged but for
  the source tag, which names that ordering.
\<close>

theorem get_all_reviews_dedup_first_seen:
  "(\<forall>i \<in> review_id ` (set (ordering_reviews (most_helpful rd)) \<union> set (ordering_reviews (most_recent rd))).
       count_list (map review_id (get_all_reviews rd)) i = 1) \<and>
   review_id ` set (get_all_reviews rd)
     = review_id ` (set (ordering_reviews (most_helpful rd)) \<union> set (ordering_reviews (most_recent rd))) \<and>
   (\<forall>r \<in> set (get_all_reviews rd).
       case first_with_id (review_id r) (ordering_reviews (most_helpful rd)) of
         Some r0 \<Rightarrow> r = r0\<lparr>source := Some ''most_helpful''\<rparr>
       | None \<Rightarrow>
          (case first_with_id (review_id r) (ordering_reviews (most_recent rd)) of
             Some r0 \<Rightarrow> r = r0\<lparr>source := Some ''most_recent''\<rparr>
           | None \<Rightarrow> False))"
proof (intro conjI ballI)
  fix i
  assume "i \<in> review_id ` (set (ordering_reviews (most_helpful rd)) \<union> set (ordering_reviews (most_recent rd)))"
  then have "i \<in> set (map review_id (get_all_reviews rd))"
    using get_all_reviews_ids [of rd] by simp
  then show "count_list (map review_id (get_all_reviews rd)) i = 1"
    by (rule count_list_distinct [OF get_all_reviews_distinct])
next
  show "review_id ` set (get_all_reviews rd)
     = review_id ` (set (ordering_reviews (most_helpful rd)) \<union> set (ordering_reviews (most_recent rd)))"
    by (rule get_all_reviews_ids)
next
  fix r
  assume "r \<in> set (get_all_reviews rd)"
  then show "case first_with_id (review_id r) (ordering_reviews (most_helpful rd)) of
         Some r0 \<Rightarrow> r = r0\<lparr>source := Some ''most_helpful''\<rparr>
       | None \<Rightarrow>
          (case first_with_id (review_id r) (ordering_reviews (most_recent rd)) of
             Some r0 \<Rightarrow> r = r0\<lparr>source := Some ''most_recent''\<rparr>
           | None \<Rightarrow> False)"
    by (rule get_all_reviews_members)
qed

lemma merge_example_value:
  "get_all_reviews merge_example =
     [mk_review ''7'' ''2'' ''t'' ''from helpful'' []\<lparr>source := Some ''most_helpful''\<rparr>,
      mk_review ''1'' ''5'' ''t'' ''x'' []\<lparr>source := Some ''most_helpful''\<rparr>,
      mk_review ''2'' ''3'' ''t'' ''y'' []\<lparr>source := Some ''most_recent''\<rparr>]"
  by (simp add: get_all_reviews_def add_source_def merge_example_def mk_review_def)

text \<open>
  The theorem at the two snapshots that share the id 7: the ids 7, 1 and 2 each occur
  once, and the review kept for 7 is the most-helpful one.
\<close>

theorem get_all_reviews_dedup_first_seen_witness:
  "count_list (map review_id (get_all_reviews merge_example)) ''7'' = 1 \<and>
   review_id ` set (get_all_reviews merge_example) = {''7'', ''1'', ''2''} \<and>
   mk_review ''7'' ''2'' ''t'' ''from helpful'' []\<lparr>source := Some ''most_helpful''\<rparr>
     \<in> set (get_all_reviews merge_example)"
  using get_all_reviews_dedup_first_seen [of merge_example]
  by (simp add: merge_example_value)
     (simp add: merge_example_def ordering_reviews_def mk_review_def insert_commute)

section \<open>The retry budget of \<^verbatim>\<open>fetch_url\<close>\<close>

lemma fetch_attempts_transport_retry:
  assumes "net (trace w) url = TransportFailure" and "attempt < 2"
  shows "fetch_attempts net url attempt w =
           fetch_attempts net url (attempt + 1)
             (w\<lparr>errors := errors w + 1, trace := trace w @ [Request url, Sleep (2 ^ attempt)]\<rparr>)"
  using assms
  by (subst fetch_attempts.simps) (simp add: MAX_RETRIES_def sleep_def)

lemma fetch_attempts_transport_last:
  assumes "net (trace w) url = TransportFailure"
  shows "fetch_attempts net url 2 w =
           (Inr None, w\<lparr>errors := errors w + 1, trace := trace w @ [Request url]\<rparr>)"
  using assms
  by (subst fetch_attempts.simps) (simp add: MAX_RETRIES_def)

text \<open>
  C2. When every request for the URL fails at the transport level, \<^verbatim>\<open>fetch_url\<close>
  requests the URL exactly three times, sleeps \<open>2 ^ 0\<close> seconds between the first and
  the second request and \<open>2 ^ 1\<close> seconds between the second and the third, counts
  three errors, and returns \<^verbatim>\<open>None\<close> to its caller; no exception escapes.
\<close>

theorem fetch_url_retry_budget:
  assumes "\<forall>t. net t url = TransportFailure"
  shows "fetch_url net url w =
           (Inr None,
            w\<lparr>errors := errors w + 3,
              trace := trace w @ [Request url, Sleep (2 ^ 0), Request url, Sleep (2 ^ 1), Request url]\<rparr>)"
proof -
  have "fetch_attempts net url 0 w =
          fetch_attempts net url 1
            (w\<lparr>errors := errors w + 1, trace := trace w @ [Request url, Sleep (2 ^ 0)]\<rparr>)"
    using fetch_attempts_transport_retry [of net w url 0] assms by simp
  also have "\<dots> =
          fetch_attempts net url 2
            (w\<lparr>errors := errors w + 2,
              trace := trace w @ [Request url, Sleep (2 ^ 0), Request url, Sleep (2 ^ 1)]\<rparr>)"
    using fetch_attempts_transport_retry
            [of net "w\<lparr>errors := errors w + 1, trace := trace w @ [Request url, Sleep (2 ^ 0)]\<rparr>" url 1]
          assms
    by (simp add: numeral_2_eq_2)
  also have "\<dots> =
          (Inr None,
           w\<lparr>errors := errors w + 3,
             trace := trace w @ [Request url, Sleep (2 ^ 0), Request url, Sleep (2 ^ 1), Request url]\<rparr>)"
    using fetch_attempts_transport_last
            [of net "w\<lparr>errors := errors w + 2,
              trace := trace w @ [Request url, Sleep (2 ^ 0), Request url, Sleep (2 ^ 1)]\<rparr>" url]
          assms
    by simp
  finally show ?thesis by (simp add: fetch_url_def)
qed

text \<open>The theorem on the network where every request fails, from a fresh fetcher.\<close>

theorem fetch_url_retry_budget_witness:
  "(\<forall>t. dead_net t ''u'' = TransportFailure) \<and>
   fetch_url dead_net ''u'' world0 =
     (Inr None,
      \<lparr>pages_fetched = 0, session_total_reviews = 0, errors = 3,
       trace = [Request ''u'', Sleep 1, Request ''u'', Sleep 2, Request ''u'']\<rparr>)"
proof -
  have h: "\<forall>t. dead_net t ''u'' = TransportFailure"
    by (simp add: dead_net_def)
  show ?thesis
    using h fetch_url_retry_budget [of dead_net "''u''" world0]
    by (simp add: world0_def)
qed

section \<open>The cycle guard of the pagination walk\<close>

lemma walk_Break: "walk_step net s = Break s' \<Longrightarrow> walk net s = Some (Inr s')"
  by (subst walk.simps) simp

lemma walk_Continue: "walk_step net s = Continue s' \<Longrightarrow> walk net s = walk net s'"
  by (subst walk.simps) simp

lemma walk_step_Continue:
  assumes "walk_step net s = Continue s'"
  shows "ws_url s' \<noteq> [] \<and> ws_url s' \<noteq> ws_url s \<and> ws_page_num s' = ws_page_num s + 1"
proof -
  let ?w1 = "if ws_page_num s > 1 then sleep DELAY_BETWEEN_REQUESTS (ws_world s) else ws_world s"
  obtain r w2 where f: "fetch_url net (ws_url s) ?w1 = (r, w2)"
    by (cases "fetch_url net (ws_url s) ?w1")
  from assms have nonempty: "ws_url s \<noteq> []"
    by (auto simp: walk_step_def)
  from assms f nonempty obtain data where r: "r = Inr (Some data)" and d: "data \<noteq> Falsy"
    by (auto simp: walk_step_def Let_def split: sum.splits option.splits payload.splits)
  from d obtain fo where data: "data = Doc fo" by (cases data) auto
  from assms f nonempty r data obtain next_url where
    n: "get_next_page_url data = Inr (Some next_url)"
    by (auto simp: walk_step_def Let_def split: sum.splits option.splits if_splits)
  from assms f nonempty r data n show ?thesis
    by (auto simp: walk_step_def Let_def split: if_splits)
qed

lemma fetch_url_Body:
  assumes "net (trace w) url = Body data"
  shows "fetch_url net url w =
           (Inr (Some data), w\<lparr>trace := trace w @ [Request url], pages_fetched := pages_fetched w + 1\<rparr>)"
  using assms unfolding fetch_url_def
  by (subst fetch_attempts.simps) (simp add: MAX_RETRIES_def)

lemma walk_step_guard:
  assumes "ws_url s \<noteq> []"
    and "fetch_url net (ws_url s)
           (if ws_page_num s > 1 then sleep DELAY_BETWEEN_REQUESTS (ws_world s) else ws_world s)
         = (Inr (Some data), w2)"
    and "data \<noteq> Falsy"
    and "get_next_page_url data = Inr (Some (ws_url s))"
  shows "walk_step net s =
           Break (s\<lparr>ws_world := w2,
                    ws_all_reviews := ws_all_reviews s @ extract_reviews data,
                    ws_metadata := update_app_name data (ws_metadata s)\<rparr>)"
proof -
  from assms(3) obtain fo where data: "data = Doc fo" by (cases data) auto
  show ?thesis
    using assms(1,2,4) unfolding data walk_step_def
    by (simp add: Let_def)
qed

lemma walk_step_next:
  assumes "ws_url s \<noteq> []"
    and "fetch_url net (ws_url s)
           (if ws_page_num s > 1 then sleep DELAY_BETWEEN_REQUESTS (ws_world s) else ws_world s)
         = (Inr (Some data), w2)"
    and "data \<noteq> Falsy"
    and "get_next_page_url data = Inr (Some next_url)"
    and "next_url \<noteq> []" and "next_url \<noteq> ws_url s"
  shows "walk_step net s =
           Continue (s\<lparr>ws_world := w2,
                       ws_all_reviews := ws_all_reviews s @ extract_reviews data,
                       ws_metadata := update_app_name data (ws_metadata s),
                       ws_url := next_url, ws_page_num := ws_page_num s + 1\<rparr>)"
proof -
  from assms(3) obtain fo where data: "data = Doc fo" by (cases data) auto
  show ?thesis
    using assms(1,2,4,5,6) unfolding data walk_step_def
    by (simp add: Let_def)
qed

subsection \<open>A walk that never returns\<close>

lemma rewrite_next_url_a: "rewrite_next url_a = url_a"
  by (simp add: rewrite_next_def url_a_def first_page_url_def BASE_URL_def)

lemma rewrite_next_url_b: "rewrite_next url_b = url_b"
  by (simp add: rewrite_next_def url_b_def BASE_URL_def)

lemma url_a_neq_url_b: "url_a \<noteq> url_b"
  by (simp add: url_b_def url_a_def first_page_url_def BASE_URL_def)

lemma url_a_nonempty: "url_a \<noteq> []"
  by (simp add: url_a_def first_page_url_def BASE_URL_def)

lemma url_b_nonempty: "url_b \<noteq> []"
  by (simp add: url_b_def BASE_URL_def)

lemma get_next_page_url_page_with_next:
  "get_next_page_url (page_with_next h) = Inr (Some (rewrite_next h))"
  by (simp add: get_next_page_url_def page_with_next_def as_list_def)

lemma pingpong_step:
  assumes "ws_url s = url_a \<or> ws_url s = url_b"
  shows "\<exists>s'. walk_step pingpong_net s = Continue s' \<and> (ws_url s' = url_a \<or> ws_url s' = url_b)"
proof -
  let ?w1 = "if ws_page_num s > 1 then sleep DELAY_BETWEEN_REQUESTS (ws_world s) else ws_world s"
  define other where "other = (if ws_url s = url_a then url_b else url_a)"
  have f: "fetch_url pingpong_net (ws_url s) ?w1 =
             (Inr (Some (page_with_next other)),
              ?w1\<lparr>trace := trace ?w1 @ [Request (ws_url s)], pages_fetched := pages_fetched ?w1 + 1\<rparr>)"
    by (rule fetch_url_Body) (simp add: pingpong_net_def other_def)
  have n: "get_next_page_url (page_with_next other) = Inr (Some other)"
    by (simp add: get_next_page_url_page_with_next rewrite_next_url_a rewrite_next_url_b other_def)
  have o: "other \<noteq> []" "other \<noteq> ws_url s" "other = url_a \<or> other = url_b"
    using assms url_a_neq_url_b url_a_nonempty url_b_nonempty by (auto simp: other_def)
  have ne: "ws_url s \<noteq> []"
    using assms url_a_nonempty url_b_nonempty by auto
  have p: "page_with_next other \<noteq> Falsy"
    by (simp add: page_with_next_def)
  have "walk_step pingpong_net s =
          Continue (s\<lparr>ws_world := ?w1\<lparr>trace := trace ?w1 @ [Request (ws_url s)],
                                      pages_fetched := pages_fetched ?w1 + 1\<rparr>,
                      ws_all_reviews := ws_all_reviews s @ extract_reviews (page_with_next other),
                      ws_metadata := update_app_name (page_with_next other) (ws_metadata s),
                      ws_url := other, ws_page_num := ws_page_num s + 1\<rparr>)"
    by (rule walk_step_next [OF ne f p n o(1) o(2)])
  then show ?thesis using o(3) by auto
qed

lemma pingpong_never_returns:
  assumes "walk net s = Some y"
  shows "net = pingpong_net \<longrightarrow> ws_url s \<noteq> url_a \<and> ws_url s \<noteq> url_b"
  using assms
proof (induction rule: walk.raw_induct [rotated 1, consumes 1])
  case (1 walk' net s y)
  show ?case
  proof (intro impI)
    assume net: "net = pingpong_net"
    show "ws_url s \<noteq> url_a \<and> ws_url s \<noteq> url_b"
    proof (rule ccontr)
      assume "\<not> (ws_url s \<noteq> url_a \<and> ws_url s \<noteq> url_b)"
      then have "ws_url s = url_a \<or> ws_url s = url_b" by auto
      from pingpong_step [OF this] obtain s' where
        st: "walk_step pingpong_net s = Continue s'" and u: "ws_url s' = url_a \<or> ws_url s' = url_b"
        by blast
      from 1(2) st net have "walk' pingpong_net s' = Some y" by simp
      from 1(1) [OF this] u show False by simp
    qed
  qed
qed

text \<open>
  What the guard of the loop does in a single pass: a pass that continues does so with a
  non-empty cursor different from the cursor it just fetched; a pass that breaks ends the
  walk; when the cursor extracted from the fetched page equals the cursor just fetched,
  the pass breaks, with the page number and the cursor unchanged; and on a feed that
  answers the request for the current cursor with a page whose next cursor is that same
  cursor, the walk returns after that single request.
\<close>

lemma walk_cycle_guard:
  "(\<forall>s'. walk_step net s = Continue s' \<longrightarrow>
          ws_url s' \<noteq> [] \<and> ws_url s' \<noteq> ws_url s \<and> walk net s = walk net s') \<and>
   (\<forall>s'. walk_step net s = Break s' \<longrightarrow> walk net s = Some (Inr s')) \<and>
   (\<forall>w1 w2 data.
      ws_url s \<noteq> [] \<and>
      w1 = (if ws_page_num s > 1 then sleep DELAY_BETWEEN_REQUESTS (ws_world s) else ws_world s) \<and>
      fetch_url net (ws_url s) w1 = (Inr (Some data), w2) \<and>
      data \<noteq> Falsy \<and>
      get_next_page_url data = Inr (Some (ws_url s))
      \<longrightarrow> walk_step net s =
            Break (s\<lparr>ws_world := w2,
                     ws_all_reviews := ws_all_reviews s @ extract_reviews data,
                     ws_metadata := update_app_name data (ws_metadata s)\<rparr>)) \<and>
   (\<forall>w1 data.
      ws_url s \<noteq> [] \<and>
      w1 = (if ws_page_num s > 1 then sleep DELAY_BETWEEN_REQUESTS (ws_world s) else ws_world s) \<and>
      net (trace w1) (ws_url s) = Body data \<and>
      data \<noteq> Falsy \<and>
      get_next_page_url data = Inr (Some (ws_url s))
      \<longrightarrow> walk net s =
            Some (Inr (s\<lparr>ws_world := w1\<lparr>trace := trace w1 @ [Request (ws_url s)],
                                        pages_fetched := pages_fetched w1 + 1\<rparr>,
                         ws_all_reviews := ws_all_reviews s @ extract_reviews data,
                         ws_metadata := update_app_name data (ws_metadata s)\<rparr>)))"
proof -
  have c1: "\<forall>s'. walk_step net s = Continue s' \<longrightarrow>
          ws_url s' \<noteq> [] \<and> ws_url s' \<noteq> ws_url s \<and> walk net s = walk net s'"
    using walk_step_Continue [of net s] walk_Continue [of net s] by simp
  have c2: "\<forall>s'. walk_step net s = Break s' \<longrightarrow> walk net s = Some (Inr s')"
    using walk_Break [of net s] by simp
  let ?w1 = "if ws_page_num s > 1 then sleep DELAY_BETWEEN_REQUESTS (ws_world s) else ws_world s"
  have g3: "\<And>w2 data. ws_url s \<noteq> [] \<Longrightarrow>
      fetch_url net (ws_url s) ?w1 = (Inr (Some data), w2) \<Longrightarrow>
      data \<noteq> Falsy \<Longrightarrow>
      get_next_page_url data = Inr (Some (ws_url s)) \<Longrightarrow>
      walk_step net s =
            Break (s\<lparr>ws_world := w2,
                     ws_all_reviews := ws_all_reviews s @ extract_reviews data,
                     ws_metadata := update_app_name data (ws_metadata s)\<rparr>)"
    by (rule walk_step_guard)
  have c3: "\<forall>w1 w2 data.
      ws_url s \<noteq> [] \<and>
      w1 = (if ws_page_num s > 1 then sleep DELAY_BETWEEN_REQUESTS (ws_world s) else ws_world s) \<and>
      fetch_url net (ws_url s) w1 = (Inr (Some data), w2) \<and>
      data \<noteq> Falsy \<and>
      get_next_page_url data = Inr (Some (ws_url s))
      \<longrightarrow> walk_step net s =
            Break (s\<lparr>ws_world := w2,
                     ws_all_reviews := ws_all_reviews s @ extract_reviews data,
                     ws_metadata := update_app_name data (ws_metadata s)\<rparr>)"
    by (intro allI impI, elim conjE, hypsubst, rule g3; assumption)
  have g4: "\<And>data. ws_url s \<noteq> [] \<Longrightarrow>
      net (trace ?w1) (ws_url s) = Body data \<Longrightarrow>
      data \<noteq> Falsy \<Longrightarrow>
      get_next_page_url data = Inr (Some (ws_url s)) \<Longrightarrow>
      walk net s =
            Some (Inr (s\<lparr>ws_world := ?w1\<lparr>trace := trace ?w1 @ [Request (ws_url s)],
                                        pages_fetched := pages_fetched ?w1 + 1\<rparr>,
                         ws_all_reviews := ws_all_reviews s @ extract_reviews data,
                         ws_metadata := update_app_name data (ws_metadata s)\<rparr>))"
  proof -
    fix data
    assume ne: "ws_url s \<noteq> []" and b: "net (trace ?w1) (ws_url s) = Body data"
      and d: "data \<noteq> Falsy" and n: "get_next_page_url data = Inr (Some (ws_url s))"
    show "walk net s =
            Some (Inr (s\<lparr>ws_world := ?w1\<lparr>trace := trace ?w1 @ [Request (ws_url s)],
                                        pages_fetched := pages_fetched ?w1 + 1\<rparr>,
                         ws_all_reviews := ws_all_reviews s @ extract_reviews data,
                         ws_metadata := update_app_name data (ws_metadata s)\<rparr>))"
      by (rule walk_Break [OF walk_step_guard [OF ne fetch_url_Body [of net ?w1 "ws_url s" data, OF b] d n]])
  qed
  have c4: "\<forall>w1 data.
      ws_url s \<noteq> [] \<and>
      w1 = (if ws_page_num s > 1 then sleep DELAY_BETWEEN_REQUESTS (ws_world s) else ws_world s) \<and>
      net (trace w1) (ws_url s) = Body data \<and>
      data \<noteq> Falsy \<and>
      get_next_page_url data = Inr (Some (ws_url s))
      \<longrightarrow> walk net s =
            Some (Inr (s\<lparr>ws_world := w1\<lparr>trace := trace w1 @ [Request (ws_url s)],
                                        pages_fetched := pages_fetched w1 + 1\<rparr>,
                         ws_all_reviews := ws_all_reviews s @ extract_reviews data,
                         ws_metadata := update_app_name data (ws_metadata s)\<rparr>))"
    by (intro allI impI, elim conjE, hypsubst, rule g4; assumption)
  show ?thesis
    by (rule conjI [OF c1 conjI [OF c2 conjI [OF c3 c4]]])
qed

lemma walk_start_fields:
  "ws_url walk_start = url_a" "ws_page_num walk_start = 1" "ws_world walk_start = world0"
  "ws_all_reviews walk_start = []"
  by (simp_all add: walk_start_def initial_walk_state_def url_a_def)

lemma page_with_next_plain:
  "page_with_next h \<noteq> Falsy" "extract_reviews (page_with_next h) = []"
  "update_app_name (page_with_next h) md = md"
  by (simp_all add: page_with_next_def extract_reviews_def update_app_name_def)

text \<open>
  The guard on two feeds, from the start of the walk. On the feed whose pages point
  back to themselves the walk returns after the single request for the first page. On
  the feed of two pages that point to each other the first pass continues, with the
  second page as cursor.
\<close>

lemma walk_cycle_guard_examples:
  "ws_url walk_start \<noteq> [] \<and>
   selfloop_net (trace world0) (ws_url walk_start) = Body (page_with_next url_a) \<and>
   page_with_next url_a \<noteq> Falsy \<and>
   get_next_page_url (page_with_next url_a) = Inr (Some (ws_url walk_start)) \<and>
   walk selfloop_net walk_start =
     Some (Inr (walk_start\<lparr>ws_world := world0\<lparr>trace := [Request url_a], pages_fetched := 1\<rparr>\<rparr>)) \<and>
   (\<exists>s'. walk_step pingpong_net walk_start = Continue s' \<and> ws_url s' = url_b \<and>
         ws_url s' \<noteq> ws_url walk_start \<and> walk pingpong_net walk_start = walk pingpong_net s')"
proof -
  have h1: "ws_url walk_start \<noteq> []"
    by (simp add: walk_start_fields url_a_nonempty)
  have h2: "selfloop_net (trace world0) (ws_url walk_start) = Body (page_with_next url_a)"
    by (simp add: selfloop_net_def walk_start_fields)
  have h3: "page_with_next url_a \<noteq> Falsy"
    by (rule page_with_next_plain)
  have h4: "get_next_page_url (page_with_next url_a) = Inr (Some (ws_url walk_start))"
    by (simp add: get_next_page_url_page_with_next rewrite_next_url_a walk_start_fields)
  have w0: "trace world0 = []" "pages_fetched world0 = 0"
    by (simp_all add: world0_def)
  have loop: "walk selfloop_net walk_start =
     Some (Inr (walk_start\<lparr>ws_world := world0\<lparr>trace := [Request url_a], pages_fetched := 1\<rparr>\<rparr>))"
    using walk_cycle_guard [of selfloop_net walk_start] h1 h2 h3 h4
    by (elim conjE, erule_tac x = world0 in allE, erule_tac x = "page_with_next url_a" in allE)
       (simp add: walk_start_fields page_with_next_plain w0)
  obtain s' where st: "walk_step pingpong_net walk_start = Continue s'"
    and u: "ws_url s' = url_a \<or> ws_url s' = url_b"
    using pingpong_step [of walk_start] walk_start_fields(1) by blast
  have "ws_url s' \<noteq> ws_url walk_start \<and> walk pingpong_net walk_start = walk pingpong_net s'"
    using walk_cycle_guard [of pingpong_net walk_start] st by blast
  then have "walk_step pingpong_net walk_start = Continue s' \<and> ws_url s' = url_b \<and>
         ws_url s' \<noteq> ws_url walk_start \<and> walk pingpong_net walk_start = walk pingpong_net s'"
    using st u walk_start_fields(1) by auto
  then have ex: "\<exists>s'. walk_step pingpong_net walk_start = Continue s' \<and> ws_url s' = url_b \<and>
         ws_url s' \<noteq> ws_url walk_start \<and> walk pingpong_net walk_start = walk pingpong_net s'"
    by (rule exI)
  show ?thesis
    by (rule conjI [OF h1 conjI [OF h2 conjI [OF h3 conjI [OF h4 conjI [OF loop ex]]]]])
qed

text \<open>
  C3. The claim has every walk stop, because each pass either advances the cursor to a
  distinct value or stops. The guard, which the source comments with
  \<^verbatim>\<open># Avoid infinite loops\<close>, compares the next cursor with the cursor just
  fetched only. The walk over the two pages whose \<^verbatim>\<open>next\<close> links point to each
  other never returns: each page is different from the one fetched before it, so the
  guard never fires.
\<close>

theorem walk_pingpong_diverges:
  "fetch_all_reviews pingpong_net ''1'' ''now'' ''mostrecent'' world0 = None"
proof -
  have "ws_url (initial_walk_state ''1'' ''now'' ''mostrecent'' world0) = url_a"
    by (simp add: initial_walk_state_def url_a_def)
  then have "walk pingpong_net (initial_walk_state ''1'' ''now'' ''mostrecent'' world0) = None"
    using pingpong_never_returns [of pingpong_net "initial_walk_state ''1'' ''now'' ''mostrecent'' world0"]
    by (cases "walk pingpong_net (initial_walk_state ''1'' ''now'' ''mostrecent'' world0)") auto
  then show ?thesis by (simp add: fetch_all_reviews_def)
qed

section \<open>When the rating statistics fail\<close>

lemma half_sum_bound:
  fixes a c :: int and b :: rat
  assumes "\<bar>of_int a :: rat\<bar> \<le> b" and "\<bar>of_int c :: rat\<bar> \<le> b"
  shows "\<bar>(of_int (a + c) :: rat) / 2\<bar> \<le> b"
proof -
  define x y :: rat where "x = of_int a" and "y = of_int c"
  have "\<bar>x\<bar> \<le> b" "\<bar>y\<bar> \<le> b" using assms by (simp_all add: x_def y_def)
  then have "\<bar>(x + y) / 2\<bar> \<le> b" by (simp add: abs_le_iff)
  then show ?thesis by (simp add: x_def y_def)
qed

lemma py_median_returns:
  assumes "xs \<noteq> []" and "\<forall>k \<in> set xs. \<bar>of_int k :: rat\<bar> \<le> b" and "float_ok env b"
  shows "\<exists>m. py_median env xs = Inr m"
proof -
  define data where "data = sort xs"
  define n where "n = length data"
  have pos: "0 < n" using assms(1) by (simp add: n_def data_def)
  have sne: "sort xs \<noteq> []" using assms(1) by (metis length_0_conv length_sort)
  have unfold: "py_median env xs =
     (if n mod 2 = 1 then Inr (PyInt (data ! (n div 2)))
      else py_float env (of_int (data ! (n div 2 - 1) + data ! (n div 2)) / 2))"
    using sne by (simp add: py_median_def Let_def n_def data_def)
  show ?thesis
  proof (cases "n mod 2 = 1")
    case True
    then show ?thesis by (simp add: unfold)
  next
    case False
    have i2: "n div 2 < n" using pos by simp
    then have i1: "n div 2 - 1 < n" by arith
    have "data ! (n div 2 - 1) \<in> set data" "data ! (n div 2) \<in> set data"
      using i1 i2 by (simp_all add: n_def)
    then have "\<bar>of_int (data ! (n div 2 - 1)) :: rat\<bar> \<le> b" "\<bar>of_int (data ! (n div 2)) :: rat\<bar> \<le> b"
      using assms(2) by (simp_all add: data_def)
    then have "\<bar>(of_int (data ! (n div 2 - 1) + data ! (n div 2)) :: rat) / 2\<bar> \<le> b"
      by (rule half_sum_bound)
    from py_float_returns [OF assms(3) this] obtain f where
      "py_float env (of_int (data ! (n div 2 - 1) + data ! (n div 2)) / 2) = Inr (PyFloat f)"
      by blast
    then show ?thesis using False by (simp add: unfold)
  qed
qed

lemma analyze_ratings_Nil:
  "analyze_ratings_distribution env [] = Inl StatisticsError"
  by (simp add: analyze_ratings_distribution_def int_ratings_def py_mean_def)

lemma analyze_ratings_ValueError:
  assumes "\<exists>r \<in> set reviews. int_of_str env (rating r) = None"
  shows "analyze_ratings_distribution env reviews = Inl ValueError"
  by (simp add: analyze_ratings_distribution_def int_ratings_Inl [OF assms])

lemma analyze_ratings_returns:
  assumes "reviews \<noteq> []"
    and "\<forall>r \<in> set reviews. \<exists>k. int_of_str env (rating r) = Some k \<and> \<bar>of_int k :: rat\<bar> \<le> b"
    and "float_ok env b"
  shows "\<exists>stats. analyze_ratings_distribution env reviews = Inr stats"
proof -
  define ks where "ks = map (\<lambda>r. the (int_of_str env (rating r))) reviews"
  have "\<forall>r \<in> set reviews. int_of_str env (rating r) \<noteq> None"
    using assms(2) by auto
  then have ks: "int_ratings env reviews = Inr ks"
    unfolding ks_def by (rule int_ratings_Inr)
  have ne: "ks \<noteq> []" using assms(1) by (simp add: ks_def)
  have bound: "\<forall>k \<in> set ks. \<bar>of_int k :: rat\<bar> \<le> b"
    using assms(2) by (auto simp: ks_def)
  then have "\<forall>x \<in> set (map PyInt ks). \<bar>num_val x\<bar> \<le> b" by auto
  moreover have "map PyInt ks \<noteq> []" using ne by simp
  ultimately obtain m where m: "py_mean env (map PyInt ks) = Inr m"
    using py_mean_returns [OF _ _ assms(3)] by blast
  from py_median_returns [OF ne bound assms(3)] obtain md where
    md: "py_median env ks = Inr md" by blast
  show ?thesis
    by (simp add: analyze_ratings_distribution_def ks m md Let_def)
qed

text \<open>
  A list of one review whose rating is the empty string, the value that
  \<^verbatim>\<open>extract_reviews\<close> stores when the feed entry has no rating: the list is not
  empty, and the aggregation raises \<^verbatim>\<open>ValueError\<close>.
\<close>

theorem analyze_ratings_nonempty_fails:
  "[unrated_review] \<noteq> [] \<and>
   analyze_ratings_distribution env0 [unrated_review] = Inl ValueError"
proof -
  have "int_of_str env0 (rating unrated_review) = None"
    by (simp add: unrated_review_def mk_review_def env0_def parse_int_digit)
  then have "analyze_ratings_distribution env0 [unrated_review] = Inl ValueError"
    by (intro analyze_ratings_ValueError) simp
  then show ?thesis by simp
qed

text \<open>
  C4, as the code has it. The aggregation of no reviews fails with the
  \<^verbatim>\<open>StatisticsError\<close> of \<^verbatim>\<open>statistics.mean\<close>. The aggregation of a non-empty list
  returns statistics when every rating converts to an int and floats behave up to a
  bound on the ratings; it fails with \<^verbatim>\<open>ValueError\<close> when some rating does not
  convert.
\<close>

theorem analyze_ratings_empty_or_returns:
  "analyze_ratings_distribution env [] = Inl StatisticsError \<and>
   (reviews \<noteq> [] \<and>
    (\<forall>r \<in> set reviews. \<exists>k. int_of_str env (rating r) = Some k \<and> \<bar>of_int k :: rat\<bar> \<le> b) \<and>
    float_ok env b
    \<longrightarrow> (\<exists>stats. analyze_ratings_distribution env reviews = Inr stats)) \<and>
   ((\<exists>r \<in> set reviews. int_of_str env (rating r) = None)
    \<longrightarrow> analyze_ratings_distribution env reviews = Inl ValueError)"
proof -
  have c1: "analyze_ratings_distribution env [] = Inl StatisticsError"
    by (rule analyze_ratings_Nil)
  have c2: "reviews \<noteq> [] \<and>
    (\<forall>r \<in> set reviews. \<exists>k. int_of_str env (rating r) = Some k \<and> \<bar>of_int k :: rat\<bar> \<le> b) \<and>
    float_ok env b
    \<longrightarrow> (\<exists>stats. analyze_ratings_distribution env reviews = Inr stats)"
    using analyze_ratings_returns [of reviews env b] by blast
  have c3: "(\<exists>r \<in> set reviews. int_of_str env (rating r) = None)
    \<longrightarrow> analyze_ratings_distribution env reviews = Inl ValueError"
    using analyze_ratings_ValueError [of reviews env] by blast
  show ?thesis by (rule conjI [OF c1 conjI [OF c2 c3]])
qed

lemma two_reviews_ratings:
  "\<forall>r \<in> set two_reviews. \<exists>k. int_of_str env0 (rating r) = Some k \<and> \<bar>of_int k :: rat\<bar> \<le> 5"
  by (simp add: two_reviews_def mk_review_def env0_def parse_int_digit)

text \<open>
  The theorem on the two reviews rated 2 and 5, whose statistics exist, and on the same
  two reviews after the review without a rating, where the aggregation fails.
\<close>

theorem analyze_ratings_empty_or_returns_witness:
  "two_reviews \<noteq> [] \<and>
   list_all (\<lambda>r. \<exists>k. int_of_str env0 (rating r) = Some k \<and> \<bar>of_int k :: rat\<bar> \<le> 5) two_reviews \<and>
   float_ok env0 5 \<and>
   (\<exists>stats. analyze_ratings_distribution env0 two_reviews = Inr stats) \<and>
   (\<exists>r \<in> set (unrated_review # two_reviews). int_of_str env0 (rating r) = None) \<and>
   analyze_ratings_distribution env0 (unrated_review # two_reviews) = Inl ValueError"
proof -
  have h1: "two_reviews \<noteq> []" by (simp add: two_reviews_def)
  note h2 = two_reviews_ratings
  note h3 = float_ok_env0_5
  have r: "\<exists>stats. analyze_ratings_distribution env0 two_reviews = Inr stats"
    using analyze_ratings_empty_or_returns [of env0 two_reviews 5] h1 h2 h3 by blast
  have h4: "\<exists>r \<in> set (unrated_review # two_reviews). int_of_str env0 (rating r) = None"
    by (simp add: unrated_review_def mk_review_def env0_def parse_int_digit)
  have f: "analyze_ratings_distribution env0 (unrated_review # two_reviews) = Inl ValueError"
    using analyze_ratings_empty_or_returns [of env0 "unrated_review # two_reviews" 5] h4 by blast
  have h2': "list_all (\<lambda>r. \<exists>k. int_of_str env0 (rating r) = Some k \<and> \<bar>of_int k :: rat\<bar> \<le> 5) two_reviews"
    using h2 by (simp only: list_all_iff)
  show ?thesis
    by (rule conjI [OF h1 conjI [OF h2' conjI [OF h3 conjI [OF r conjI [OF h4 f]]]]])
qed

section \<open>The previous window of the trend\<close>

text \<open>
  C5, as the code has it. Whenever the trend analyzer returns: if the dated reviews fall
  into at most 3 distinct months, so that no month precedes the recent window, the
  previous average is the recent average and the trend is \<^verbatim>\<open>stable\<close>; if they
  fall into more than 3 months, the previous average is the mean over the up to three
  months before the recent window, also when these are only one or two, and the trend
  compares the two averages.
\<close>

theorem trend_neutral_default:
  assumes "analyze_temporal_trends env reviews = Inr stats"
  shows "(card (month_key ` fst ` set (dated_reviews env reviews)) \<le> 3 \<longrightarrow>
            (\<exists>trends recent_avg. trend_windows env reviews = Inr (trends, recent_avg, recent_avg)) \<and>
            recent_trend stats = ''stable'') \<and>
         (3 < card (month_key ` fst ` set (dated_reviews env reviews)) \<longrightarrow>
            (\<exists>trends recent_avg previous_avg.
               trend_windows env reviews = Inr (trends, recent_avg, previous_avg) \<and>
               py_mean env (avg_ratings trends (slice_m6_m3 (sort (map fst trends)))) = Inr previous_avg \<and>
               recent_trend stats = classify_trend recent_avg previous_avg))"
proof -
  from assms obtain trends recent_avg previous_avg where
    w: "trend_windows env reviews = Inr (trends, recent_avg, previous_avg)"
    and stats: "recent_trend stats = classify_trend recent_avg previous_avg"
    by (rule analyze_trends_Inr) simp
  have "card (set (map fst trends)) = length (map fst trends)"
    by (rule distinct_card [OF trend_windows_Inr(2) [OF w]])
  then have card: "card (month_key ` fst ` set (dated_reviews env reviews)) = length trends"
    by (simp only: trend_windows_Inr(3) [OF w] length_map)
  have c1: "card (month_key ` fst ` set (dated_reviews env reviews)) \<le> 3 \<longrightarrow>
            (\<exists>trends recent_avg. trend_windows env reviews = Inr (trends, recent_avg, recent_avg)) \<and>
            recent_trend stats = ''stable''"
  proof
    assume "card (month_key ` fst ` set (dated_reviews env reviews)) \<le> 3"
    then have "length trends \<le> 3" by (simp only: card)
    from trend_windows_Inr(5) [OF w this] have e: "previous_avg = recent_avg" .
    have "trend_windows env reviews = Inr (trends, recent_avg, recent_avg)"
      using w by (simp only: e)
    moreover have "recent_trend stats = ''stable''"
      by (simp add: stats e classify_trend_def)
    ultimately show "(\<exists>trends recent_avg. trend_windows env reviews = Inr (trends, recent_avg, recent_avg)) \<and>
            recent_trend stats = ''stable''"
      by blast
  qed
  have c2: "3 < card (month_key ` fst ` set (dated_reviews env reviews)) \<longrightarrow>
            (\<exists>trends recent_avg previous_avg.
               trend_windows env reviews = Inr (trends, recent_avg, previous_avg) \<and>
               py_mean env (avg_ratings trends (slice_m6_m3 (sort (map fst trends)))) = Inr previous_avg \<and>
               recent_trend stats = classify_trend recent_avg previous_avg)"
  proof
    assume "3 < card (month_key ` fst ` set (dated_reviews env reviews))"
    then have "3 < length trends" by (simp only: card)
    from trend_windows_Inr(6) [OF w this] w stats
    show "\<exists>trends recent_avg previous_avg.
               trend_windows env reviews = Inr (trends, recent_avg, previous_avg) \<and>
               py_mean env (avg_ratings trends (slice_m6_m3 (sort (map fst trends)))) = Inr previous_avg \<and>
               recent_trend stats = classify_trend recent_avg previous_avg"
      by blast
  qed
  show ?thesis by (rule conjI [OF c1 c2])
qed

text \<open>
  Four distinct months, so one month before the recent window of three: the previous
  average is the mean of that month, 1, the recent average is 5, and the trend is
  \<^verbatim>\<open>improving\<close>, not \<^verbatim>\<open>stable\<close>.
\<close>

theorem trend_one_prior_month_improving:
  "card (month_key ` fst ` set (dated_reviews env0 four_months)) = 4 \<and>
   trend_windows env0 four_months = Inr (four_months_series, PyInt 5, PyInt 1) \<and>
   PyInt 1 \<noteq> PyInt 5 \<and>
   analyze_temporal_trends env0 four_months = Inr four_months_stats \<and>
   recent_trend four_months_stats = ''improving''"
  using four_months_card four_months_windows four_months_trends
  by (simp add: four_months_stats_def)

text \<open>The theorem on a single month, and on the four months.\<close>

theorem trend_neutral_default_witness:
  "analyze_temporal_trends env0 single_month = Inr single_month_stats \<and>
   card (month_key ` fst ` set (dated_reviews env0 single_month)) \<le> 3 \<and>
   (\<exists>trends recent_avg. trend_windows env0 single_month = Inr (trends, recent_avg, recent_avg)) \<and>
   recent_trend single_month_stats = ''stable'' \<and>
   analyze_temporal_trends env0 four_months = Inr four_months_stats \<and>
   3 < card (month_key ` fst ` set (dated_reviews env0 four_months)) \<and>
   (\<exists>trends recent_avg previous_avg.
      trend_windows env0 four_months = Inr (trends, recent_avg, previous_avg) \<and>
      py_mean env0 (avg_ratings trends (slice_m6_m3 (sort (map fst trends)))) = Inr previous_avg \<and>
      recent_trend four_months_stats = classify_trend recent_avg previous_avg)"
proof -
  have c1: "card (month_key ` fst ` set (dated_reviews env0 single_month)) \<le> 3"
    by (simp add: single_month_card)
  have c4: "3 < card (month_key ` fst ` set (dated_reviews env0 four_months))"
    by (simp add: four_months_card)
  note t1 = trend_neutral_default [OF single_month_trends, THEN conjunct1, THEN mp, OF c1]
  note t4 = trend_neutral_default [OF four_months_trends, THEN conjunct2, THEN mp, OF c4]
  show ?thesis
    by (rule conjI [OF single_month_trends conjI [OF c1 conjI [OF t1 [THEN conjunct1]
          conjI [OF t1 [THEN conjunct2] conjI [OF four_months_trends conjI [OF c4 t4]]]]]])
qed

section \<open>The rating counts add up\<close>

lemma counter_add_sum:
  "sum_list (map snd (counter_add k c)) = sum_list (map snd c) + 1"
  using dict_set_sum [of k "case map_of c k of None \<Rightarrow> 1 | Some n \<Rightarrow> n + 1" c]
  by (auto simp: counter_add_def split: option.splits)

lemma counter_add_distinct:
  "distinct (map fst c) \<Longrightarrow> distinct (map fst (counter_add k c))"
  by (auto simp: counter_add_def dict_set_keys)

lemma counter_foldl:
  "sum_list (map snd (foldl (\<lambda>c k. counter_add k c) c0 xs)) = sum_list (map snd c0) + length xs"
  by (induction xs arbitrary: c0) (simp_all add: counter_add_sum)

lemma counter_foldl_distinct:
  "distinct (map fst c0) \<Longrightarrow> distinct (map fst (foldl (\<lambda>c k. counter_add k c) c0 xs))"
  by (induction xs arbitrary: c0) (simp_all add: counter_add_distinct)

lemma counter_sum: "sum_list (map snd (counter xs)) = length xs"
  using counter_foldl [of "[]" xs] by (simp add: counter_def)

lemma counter_distinct: "distinct (map fst (counter xs))"
  using counter_foldl_distinct [of "[]" xs] by (simp add: counter_def)

lemma str_keys_foldl:
  assumes "distinct (map fst c)" and "py_str ` fst ` set c \<inter> fst ` set d0 = {}"
  shows "foldl (\<lambda>d (k, v). dict_set (py_str k) v d) d0 c = d0 @ map (\<lambda>(k, v). (py_str k, v)) c"
  using assms
proof (induction c arbitrary: d0)
  case Nil
  then show ?case by simp
next
  case (Cons p c)
  obtain k v where p: "p = (k, v)" by (cases p)
  from Cons.prems p have fresh: "py_str k \<notin> fst ` set d0" by auto
  have d: "distinct (map fst c)" using Cons.prems by simp
  have "py_str ` fst ` set c \<inter> fst ` set (d0 @ [(py_str k, v)]) = {}"
  proof -
    have "py_str k \<notin> py_str ` fst ` set c"
    proof
      assume "py_str k \<in> py_str ` fst ` set c"
      then obtain k' where "k' \<in> fst ` set c" "py_str k = py_str k'" by auto
      then have "k \<in> fst ` set c" using py_str_inj by auto
      with Cons.prems(1) p show False by simp
    qed
    with Cons.prems(2) show ?thesis by auto
  qed
  from Cons.IH [OF d this] show ?case
    by (simp add: p dict_set_fresh [OF fresh])
qed

lemma str_keys_eq:
  "distinct (map fst c) \<Longrightarrow> str_keys c = map (\<lambda>(k, v). (py_str k, v)) c"
  using str_keys_foldl [of c "[]"] by (simp add: str_keys_def)

lemma str_keys_counter_sum: "sum_list (map snd (str_keys (counter xs))) = length xs"
proof -
  have "map snd (map (\<lambda>(k, v). (py_str k, v)) (counter xs)) = map snd (counter xs)"
    by (simp add: case_prod_unfold)
  then show ?thesis
    by (simp add: str_keys_eq [OF counter_distinct] counter_sum del: map_map)
qed

lemma str_keys_counter_distinct: "distinct (map fst (str_keys (counter xs)))"
proof -
  have "map fst (map (\<lambda>(k, v). (py_str k, v)) (counter xs)) = map py_str (map fst (counter xs))"
    by (simp add: case_prod_unfold)
  moreover have "distinct (map py_str (map fst (counter xs)))"
    using counter_distinct [of xs] py_str_inj by (simp add: distinct_map inj_on_def del: map_map)
  ultimately show ?thesis
    by (simp add: str_keys_eq [OF counter_distinct] del: map_map)
qed

lemma low_high_partition:
  fixes ratings :: "int list"
  shows "length (filter (\<lambda>r. r \<le> 3) ratings) + length (filter (\<lambda>r. r \<ge> 4) ratings) = length ratings"
proof -
  have "(\<lambda>r :: int. r \<ge> 4) = (\<lambda>r. \<not> r \<le> 3)" by auto
  then show ?thesis by (simp add: sum_length_filter_compl)
qed

text \<open>
  C6. Whenever the aggregation returns statistics, the counts of the distribution sum to
  \<^verbatim>\<open>total_reviews\<close>, which is the number of reviews, no key occurs twice in the
  distribution, and the low and the high count sum to \<^verbatim>\<open>total_reviews\<close>. The
  last holds for all integer ratings, those from 1 to 5 among them: an int is at most 3
  or at least 4.
\<close>

theorem ratings_counts_add_up:
  assumes "analyze_ratings_distribution env reviews = Inr stats"
  shows "sum_list (map snd (distribution stats)) = total_reviews stats \<and>
         distinct (map fst (distribution stats)) \<and>
         total_reviews stats = length reviews \<and>
         low_ratings_count stats + high_ratings_count stats = total_reviews stats"
proof -
  from assms obtain ratings where r: "int_ratings env reviews = Inr ratings"
    by (cases "int_ratings env reviews") (simp_all add: analyze_ratings_distribution_def)
  from assms r obtain mean median where
    stats: "stats = \<lparr>distribution = str_keys (counter ratings),
                     total_reviews = length ratings,
                     average_rating = py_round2 env mean,
                     median_rating = median,
                     low_ratings_count = length (filter (\<lambda>r. r \<le> 3) ratings),
                     high_ratings_count = length (filter (\<lambda>r. r \<ge> 4) ratings)\<rparr>"
    by (auto simp: analyze_ratings_distribution_def Let_def split: sum.splits)
  have len: "length ratings = length reviews"
    using int_ratings_Inr_conv(1) [OF r] by simp
  show ?thesis
    unfolding stats
    by (simp add: str_keys_counter_sum str_keys_counter_distinct low_high_partition len)
qed

lemma two_reviews_stats:
  "analyze_ratings_distribution env0 two_reviews =
     Inr \<lparr>distribution = [(''2'', 1), (''5'', 1)], total_reviews = 2,
          average_rating = PyFloat (7 / 2), median_rating = PyFloat (7 / 2),
          low_ratings_count = 1, high_ratings_count = 1\<rparr>"
  by code_simp

text \<open>The theorem on the two reviews rated 2 and 5.\<close>

theorem ratings_counts_add_up_witness:
  "analyze_ratings_distribution env0 two_reviews =
     Inr \<lparr>distribution = [(''2'', 1), (''5'', 1)], total_reviews = 2,
          average_rating = PyFloat (7 / 2), median_rating = PyFloat (7 / 2),
          low_ratings_count = 1, high_ratings_count = 1\<rparr> \<and>
   sum_list (map snd [(''2'', 1 :: nat), (''5'', 1)]) = 2 \<and>
   distinct (map fst [(''2'', 1 :: nat), (''5'', 1)]) \<and>
   (2 :: nat) = length two_reviews \<and> (1 :: nat) + 1 = 2"
  using ratings_counts_add_up [OF two_reviews_stats]
  by (simp add: two_reviews_stats)

section \<open>Issues by category\<close>

lemma categorize_Nil_map_of:
  assumes "(category, keywords) \<in> set issue_categories"
  shows "map_of (categorize env rs []) category =
           (let ms = filter (\<lambda>r. any_keyword keywords (review_text env r)) rs
            in if ms = [] then None else Some (length ms, map issue_example (take 3 ms)))"
proof -
  have "foldl (\<lambda>e r. issue_step r e) (issue_entry [] category) ms
          = (length ms, map issue_example (take 3 ms))" for ms
    using issue_steps [of "[]" 0 ms] by (simp add: issue_entry_def)
  then show ?thesis
    by (simp add: categorize_map_of [OF assms issue_categories_distinct] Let_def)
qed

lemma categorize_Nil_examples:
  assumes "(category, c, examples) \<in> set (categorize env rs [])"
  shows "length examples \<le> 3"
proof -
  have d: "distinct (map fst (categorize env rs []))"
    by (rule categorize_distinct) simp
  from assms have "category \<in> fst ` set (categorize env rs [])" by force
  with categorize_keys [of env rs "[]"] have "category \<in> fst ` set issue_categories" by auto
  then obtain kws where k: "(category, kws) \<in> set issue_categories" by auto
  from d assms have "map_of (categorize env rs []) category = Some (c, examples)" by simp
  with categorize_Nil_map_of [OF k, of env rs] show ?thesis
    by (auto simp: Let_def split: if_splits)
qed

text \<open>
  C7. When every rating converts to an int, the extraction returns, and in its result:
  the entry of each category of the table counts the reviews that are rated at most 3 and
  whose lower-cased title, space and content contain one of the keywords of that
  category, each such review once, whatever other categories it also matches; the
  examples of the entry are those of the first three such reviews; a category without
  such a review has no entry; no other key and no key twice occurs; no entry has more
  than 3 examples; and the excerpt of an example is the content when that has at most
  200 characters, and its first 200 characters followed by three dots otherwise.
\<close>

theorem issues_by_category:
  assumes "\<forall>r \<in> set reviews. int_of_str env (rating r) \<noteq> None"
  shows "\<exists>res. extract_keywords_and_issues env reviews = Inr res \<and>
     (\<forall>(category, keywords) \<in> set issue_categories.
        map_of (res_issue_categories res) category =
          (let ms = filter (\<lambda>r. the (int_of_str env (rating r)) \<le> 3 \<and>
                               any_keyword keywords (review_text env r)) reviews
           in if ms = [] then None else Some (length ms, map issue_example (take 3 ms)))) \<and>
     fst ` set (res_issue_categories res) \<subseteq> fst ` set issue_categories \<and>
     distinct (map fst (res_issue_categories res)) \<and>
     (\<forall>(category, c, examples) \<in> set (res_issue_categories res). length examples \<le> 3) \<and>
     (\<forall>r. issue_example r =
            (rating r,
             if length (content r) > 200 then take 200 (content r) @ ''...'' else content r))"
proof -
  define low where "low = filter (\<lambda>r. the (int_of_str env (rating r)) \<le> 3) reviews"
  define res where
    "res = \<lparr>res_issue_categories = categorize env low [],
            total_issues_found = sum_list (map (\<lambda>(category, c, examples). c) (categorize env low [])),
            feature_requests_count = length (filter (requests_feature env) reviews),
            feature_request_samples = take 5 (map feature_example (filter (requests_feature env) reviews))\<rparr>"
  have r: "extract_keywords_and_issues env reviews = Inr res"
    unfolding res_def low_def by (rule extract_Inr [OF assms])
  have cc: "res_issue_categories res = categorize env low []"
    by (simp add: res_def)
  have c1: "\<forall>(category, keywords) \<in> set issue_categories.
        map_of (res_issue_categories res) category =
          (let ms = filter (\<lambda>r. the (int_of_str env (rating r)) \<le> 3 \<and>
                               any_keyword keywords (review_text env r)) reviews
           in if ms = [] then None else Some (length ms, map issue_example (take 3 ms)))"
  proof (intro ballI, clarify)
    fix category kws
    assume k: "(category, kws) \<in> set issue_categories"
    have "filter (\<lambda>r. any_keyword kws (review_text env r)) low
            = filter (\<lambda>r. the (int_of_str env (rating r)) \<le> 3 \<and>
                           any_keyword kws (review_text env r)) reviews"
      by (simp add: low_def)
    then show "map_of (res_issue_categories res) category =
          (let ms = filter (\<lambda>r. the (int_of_str env (rating r)) \<le> 3 \<and>
                               any_keyword kws (review_text env r)) reviews
           in if ms = [] then None else Some (length ms, map issue_example (take 3 ms)))"
      by (simp only: cc categorize_Nil_map_of [OF k])
  qed
  have c2: "fst ` set (res_issue_categories res) \<subseteq> fst ` set issue_categories"
    using categorize_keys [of env low "[]"] by (simp add: cc)
  have c3: "distinct (map fst (res_issue_categories res))"
    unfolding cc by (rule categorize_distinct) simp
  have c4: "\<forall>(category, c, examples) \<in> set (res_issue_categories res). length examples \<le> 3"
    unfolding cc using categorize_Nil_examples by blast
  have c5: "\<forall>r. issue_example r =
            (rating r,
             if length (content r) > 200 then take 200 (content r) @ ''...'' else content r)"
    by (simp add: issue_example_def excerpt_def)
  show ?thesis
    by (rule exI [of _ res]) (rule conjI [OF r conjI [OF c1 conjI [OF c2 conjI [OF c3 conjI [OF c4 c5]]]]])
qed

text \<open>
  The theorem on the four reviews: the result has the three categories that the first
  review matches, the bug category counts the third review too, and the excerpt of the
  third review is cut.
\<close>

theorem issues_by_category_witness:
  "list_all (\<lambda>r. int_of_str env0 (rating r) \<noteq> None) issue_reviews \<and>
   extract_keywords_and_issues env0 issue_reviews = Inr issue_reviews_result \<and>
   list_all
     (\<lambda>(category, keywords).
        map_of (res_issue_categories issue_reviews_result) category =
          (let ms = filter (\<lambda>r. the (int_of_str env0 (rating r)) \<le> 3 \<and>
                               any_keyword keywords (review_text env0 r)) issue_reviews
           in if ms = [] then None else Some (length ms, map issue_example (take 3 ms))))
     issue_categories \<and>
   list_all (\<lambda>(category, c, examples). length examples \<le> 3)
     (res_issue_categories issue_reviews_result)"
proof -
  from issues_by_category [OF issue_reviews_ratings] obtain res where
    res: "extract_keywords_and_issues env0 issue_reviews = Inr res"
    and c1: "\<forall>(category, keywords) \<in> set issue_categories.
        map_of (res_issue_categories res) category =
          (let ms = filter (\<lambda>r. the (int_of_str env0 (rating r)) \<le> 3 \<and>
                               any_keyword keywords (review_text env0 r)) issue_reviews
           in if ms = [] then None else Some (length ms, map issue_example (take 3 ms)))"
    and c4: "\<forall>(category, c, examples) \<in> set (res_issue_categories res). length examples \<le> 3"
    by blast
  from res have e: "res = issue_reviews_result"
    by (simp add: issue_reviews_value)
  show ?thesis
    using issue_reviews_ratings issue_reviews_value c1 c4 unfolding e list_all_iff by blast
qed

section \<open>The monthly series\<close>

lemma less_append_same_length:
  fixes A B :: "'a :: linorder list"
  assumes "length A = length B"
  shows "A @ X < B @ Y \<longleftrightarrow> A < B \<or> (A = B \<and> X < Y)"
  using assms by (induction A B rule: list_induct2) auto

lemma digit_char_0: "digit_char 0 = CHR ''0''"
proof -
  have "of_char (digit_char 0) = (of_char CHR ''0'' :: nat)"
    by (simp add: digit_char_def)
  then show ?thesis by (simp only: of_char_eq_iff)
qed

lemma digit_char_less:
  assumes "a < 10" and "b < 10"
  shows "digit_char a < digit_char b \<longleftrightarrow> a < b"
proof -
  have "of_char (digit_char a) = (48 + a :: nat)" "of_char (digit_char b) = (48 + b :: nat)"
    using assms by (simp_all add: digit_char_def)
  then show ?thesis
    by (simp add: less_char_def)
qed

lemma dec_small: "n < 10 \<Longrightarrow> dec n = [digit_char n]"
  by (subst dec.simps) simp

lemma dec_large: "\<not> n < 10 \<Longrightarrow> dec n = dec (n div 10) @ [digit_char (n mod 10)]"
  by (subst dec.simps) simp

lemma zero_pad_step:
  "zero_pad (Suc (Suc w)) (dec n) = zero_pad (Suc w) (dec (n div 10)) @ [digit_char (n mod 10)]"
proof (cases "n < 10")
  case True
  then have "zero_pad (Suc (Suc w)) (dec n) = replicate (Suc w) CHR ''0'' @ [digit_char n]"
    by (simp add: dec_small zero_pad_def)
  moreover have "zero_pad (Suc w) (dec (n div 10)) = replicate (Suc w) CHR ''0''"
    using True by (simp add: dec_small zero_pad_def digit_char_0 replicate_append_same)
  ultimately show ?thesis using True by simp
next
  case False
  then show ?thesis
    by (simp add: dec_large zero_pad_def)
qed

lemma zero_pad_one: "n < 10 \<Longrightarrow> zero_pad (Suc 0) (dec n) = [digit_char n]"
  by (simp add: dec_small zero_pad_def)

lemma zero_pad_length: "n < 10 ^ Suc w \<Longrightarrow> length (zero_pad (Suc w) (dec n)) = Suc w"
proof (induction w arbitrary: n)
  case 0
  then show ?case by (simp add: zero_pad_one)
next
  case (Suc w)
  then have "n div 10 < 10 ^ Suc w" by (simp add: less_mult_imp_div_less mult.commute)
  from Suc.IH [OF this] show ?case by (simp add: zero_pad_step)
qed

lemma zero_pad_less:
  assumes "n < 10 ^ Suc w" and "m < 10 ^ Suc w"
  shows "zero_pad (Suc w) (dec n) < zero_pad (Suc w) (dec m) \<longleftrightarrow> n < m"
  using assms
proof (induction w arbitrary: n m)
  case 0
  then show ?case by (simp add: zero_pad_one digit_char_less)
next
  case (Suc w)
  have n: "n div 10 < 10 ^ Suc w" and m: "m div 10 < 10 ^ Suc w"
    using Suc.prems by (simp_all add: less_mult_imp_div_less mult.commute)
  let ?A = "zero_pad (Suc w) (dec (n div 10))" and ?B = "zero_pad (Suc w) (dec (m div 10))"
  have len: "length ?A = length ?B"
    using zero_pad_length [OF n] zero_pad_length [OF m] by simp
  have lt: "?A < ?B \<longleftrightarrow> n div 10 < m div 10" by (rule Suc.IH [OF n m])
  have gt: "?B < ?A \<longleftrightarrow> m div 10 < n div 10" by (rule Suc.IH [OF m n])
  have eq: "?A = ?B \<longleftrightarrow> n div 10 = m div 10"
    using lt gt by (metis less_irrefl linorder_neqE_nat not_less_iff_gr_or_eq)
  have "zero_pad (Suc (Suc w)) (dec n) < zero_pad (Suc (Suc w)) (dec m)
      \<longleftrightarrow> ?A < ?B \<or> (?A = ?B \<and> [digit_char (n mod 10)] < [digit_char (m mod 10)])"
    unfolding zero_pad_step by (rule less_append_same_length [OF len])
  also have "\<dots> \<longleftrightarrow> n div 10 < m div 10 \<or> (n div 10 = m div 10 \<and> n mod 10 < m mod 10)"
    by (simp add: lt eq digit_char_less)
  also have "\<dots> \<longleftrightarrow> n < m"
  proof -
    have "n = 10 * (n div 10) + n mod 10" "m = 10 * (m div 10) + m mod 10" by simp_all
    moreover have "n mod 10 < 10" "m mod 10 < 10" by simp_all
    ultimately show ?thesis by arith
  qed
  finally show ?case .
qed

lemma zero_pad_inj:
  assumes "n < 10 ^ Suc w" and "m < 10 ^ Suc w"
    and "zero_pad (Suc w) (dec n) = zero_pad (Suc w) (dec m)"
  shows "n = m"
  using zero_pad_less [OF assms(1,2)] zero_pad_less [OF assms(2,1)] assms(3)
  by (metis less_irrefl linorder_neqE_nat)

lemma dec_length: "10 ^ w \<le> n \<Longrightarrow> n < 10 ^ Suc w \<Longrightarrow> length (dec n) = Suc w"
proof (induction w arbitrary: n)
  case 0
  then show ?case by (simp add: dec_small)
next
  case (Suc w)
  have "(10 :: nat) \<le> 10 ^ Suc w" by simp
  with Suc.prems(1) have big: "\<not> n < 10" by linarith
  have lo: "10 ^ w \<le> n div 10" using Suc.prems(1) by (simp add: less_eq_div_iff_mult_less_eq)
  have hi: "n div 10 < 10 ^ Suc w" using Suc.prems(2) by (simp add: less_mult_imp_div_less)
  from Suc.IH [OF lo hi] show ?case by (simp add: dec_large [OF big])
qed

lemma zero_pad_id: "w \<le> length s \<Longrightarrow> zero_pad w s = s"
  by (simp add: zero_pad_def)

lemma dec_four_digits:
  assumes "1000 \<le> n" and "n < 10000"
  shows "dec n = zero_pad (Suc 3) (dec n)"
proof -
  have "10 ^ 3 \<le> n" "n < 10 ^ Suc 3" using assms by simp_all
  then have "length (dec n) = Suc 3" by (rule dec_length)
  then show ?thesis by (simp add: zero_pad_id)
qed

lemma month_key_less:
  assumes "1000 \<le> dt_year d" "dt_year d < 10000" "1000 \<le> dt_year d'" "dt_year d' < 10000"
    and "dt_month d < 100" "dt_month d' < 100"
  shows "month_key d < month_key d' \<longleftrightarrow>
           dt_year d < dt_year d' \<or> (dt_year d = dt_year d' \<and> dt_month d < dt_month d')"
proof -
  have y: "dt_year d < 10 ^ Suc 3" "dt_year d' < 10 ^ Suc 3"
    and m: "dt_month d < 10 ^ Suc 1" "dt_month d' < 10 ^ Suc 1"
    using assms by simp_all
  let ?Y = "zero_pad (Suc 3) (dec (dt_year d))" and ?Y' = "zero_pad (Suc 3) (dec (dt_year d'))"
  let ?M = "zero_pad (Suc 1) (dec (dt_month d))" and ?M' = "zero_pad (Suc 1) (dec (dt_month d'))"
  have len: "length ?Y = length ?Y'" using zero_pad_length [OF y(1)] zero_pad_length [OF y(2)] by simp
  have "month_key d = dec (dt_year d) @ (''-'' @ ?M)" "month_key d' = dec (dt_year d') @ (''-'' @ ?M')"
    by (simp_all add: month_key_def eval_nat_numeral)
  then have k: "month_key d = ?Y @ (''-'' @ ?M)" "month_key d' = ?Y' @ (''-'' @ ?M')"
    using dec_four_digits [OF assms(1,2)] dec_four_digits [OF assms(3,4)] by simp_all
  have yeq: "?Y = ?Y' \<longleftrightarrow> dt_year d = dt_year d'"
    using zero_pad_inj [OF y] by auto
  have "month_key d < month_key d' \<longleftrightarrow> ?Y < ?Y' \<or> (?Y = ?Y' \<and> ''-'' @ ?M < ''-'' @ ?M')"
    unfolding k by (rule less_append_same_length [OF len])
  also have "\<dots> \<longleftrightarrow> ?Y < ?Y' \<or> (?Y = ?Y' \<and> ?M < ?M')" by simp
  also have "\<dots> \<longleftrightarrow> dt_year d < dt_year d' \<or> (dt_year d = dt_year d' \<and> dt_month d < dt_month d')"
    by (simp only: zero_pad_less [OF y] zero_pad_less [OF m] yeq)
  finally show ?thesis .
qed

lemma map_insort_key: "map f (insort_key f x ys) = insort (f x) (map f ys)"
  by (induction ys) auto

lemma map_sort_key: "map f (sort_key f xs) = sort (map f xs)"
  by (induction xs) (simp_all add: map_insort_key)

lemma map_last_n: "map f (last_n n xs) = last_n n (map f xs)"
  by (simp add: last_n_def drop_map)

text \<open>
  What holds of the monthly series on every input for which the trend analyzer returns:
  it has at most 12 entries, its month keys are strictly increasing as strings, and they
  are the last 12 (or all, if fewer) of the month keys of the dated reviews in increasing
  order. For years of four digits the order of the keys is the order of time: one key is
  below another exactly when its year is earlier, or the year is the same and its month
  is earlier.
\<close>

lemma monthly_series_last_12_sorted:
  assumes "analyze_temporal_trends env reviews = Inr stats"
  shows "length (monthly_trends stats) \<le> 12 \<and>
         sorted_wrt (<) (map fst (monthly_trends stats)) \<and>
         map fst (monthly_trends stats)
           = last_n 12 (sorted_list_of_set (month_key ` fst ` set (dated_reviews env reviews))) \<and>
         (\<forall>d d'. 1000 \<le> dt_year d \<and> dt_year d < 10000 \<and> 1000 \<le> dt_year d' \<and> dt_year d' < 10000 \<and>
                 dt_month d < 100 \<and> dt_month d' < 100
            \<longrightarrow> (month_key d < month_key d' \<longleftrightarrow>
                  dt_year d < dt_year d' \<or> (dt_year d = dt_year d' \<and> dt_month d < dt_month d')))"
proof -
  from assms obtain trends recent_avg previous_avg where
    w: "trend_windows env reviews = Inr (trends, recent_avg, previous_avg)"
    and stats: "monthly_trends stats = last_n 12 (sort_key fst trends)"
    by (rule analyze_trends_Inr) simp
  have d: "distinct (map fst trends)" by (rule trend_windows_Inr(2) [OF w])
  have k: "set (map fst trends) = month_key ` fst ` set (dated_reviews env reviews)"
    by (rule trend_windows_Inr(3) [OF w])
  have keys: "map fst (monthly_trends stats) = last_n 12 (sort (map fst trends))"
    by (simp only: stats map_last_n map_sort_key)
  have "sorted_list_of_set (set (map fst trends)) = sort (remdups (map fst trends))"
    by (rule sorted_list_of_set_sort_remdups)
  also have "\<dots> = sort (map fst trends)"
    using d by (simp only: distinct_remdups_id)
  finally have sl: "sort (map fst trends)
      = sorted_list_of_set (month_key ` fst ` set (dated_reviews env reviews))"
    by (simp only: k)
  have c1: "length (monthly_trends stats) \<le> 12"
    unfolding stats by (rule last_n_length)
  have "sorted_wrt (<) (sort (map fst trends))"
    using d by (simp add: strict_sorted_iff)
  then have c2: "sorted_wrt (<) (map fst (monthly_trends stats))"
    unfolding keys last_n_def by (rule sorted_wrt_drop)
  have c3: "map fst (monthly_trends stats)
           = last_n 12 (sorted_list_of_set (month_key ` fst ` set (dated_reviews env reviews)))"
    by (simp only: keys sl)
  have c4: "\<forall>d d'. 1000 \<le> dt_year d \<and> dt_year d < 10000 \<and> 1000 \<le> dt_year d' \<and> dt_year d' < 10000 \<and>
                 dt_month d < 100 \<and> dt_month d' < 100
            \<longrightarrow> (month_key d < month_key d' \<longleftrightarrow>
                  dt_year d < dt_year d' \<or> (dt_year d = dt_year d' \<and> dt_month d < dt_month d'))"
    using month_key_less by blast
  show ?thesis by (rule conjI [OF c1 conjI [OF c2 conjI [OF c3 c4]]])
qed

lemma across_year_1000_dates:
  "map (\<lambda>(d, r). (dt_year d, dt_month d)) (dated_reviews env0 across_year_1000)
     = [(999, 12), (1000, 1)]"
  by code_simp

lemma across_year_1000_trends:
  "analyze_temporal_trends env0 across_year_1000 = Inr across_year_1000_stats"
  by code_simp

text \<open>
  C8. The claim has the returned series sorted chronologically, and the source comments
  the slice that builds it with \<^verbatim>\<open># Last 12 months\<close>. The series is sorted by the
  month keys as strings, and a year below 1000 is written without padding. For a review
  of December 999 and one of January 1000 the analyzer returns the series with the key of
  January 1000 first and that of December 999, the earlier month, after it.
\<close>

theorem monthly_series_not_chronological:
  "map (\<lambda>(d, r). (dt_year d, dt_month d)) (dated_reviews env0 across_year_1000)
     = [(999, 12), (1000, 1)] \<and>
   analyze_temporal_trends env0 across_year_1000 = Inr across_year_1000_stats \<and>
   map fst (monthly_trends across_year_1000_stats) = [''1000-01'', ''999-12'']"
proof -
  have "map fst (monthly_trends across_year_1000_stats) = [''1000-01'', ''999-12'']"
    by (simp add: across_year_1000_stats_def)
  with across_year_1000_dates across_year_1000_trends show ?thesis by simp
qed

section \<open>Feature requests\<close>

text \<open>
  C9. When every rating converts to an int, the extraction returns, and in its result:
  the count of feature requests is the number of reviews in whose lower-cased title,
  space and content some pattern is found, each such review counted once; the samples
  are the examples of the first five such reviews, so at most 5, while the count is not
  capped; the loop over the patterns adds one example when some pattern is found and
  none otherwise, and stops at the first pattern found, whatever patterns follow; and
  the excerpt of an example is the content when that has at most 300 characters, and its
  first 300 characters followed by three dots otherwise.
\<close>

theorem feature_requests_counted_once:
  assumes "\<forall>r \<in> set reviews. int_of_str env (rating r) \<noteq> None"
  shows "\<exists>res. extract_keywords_and_issues env reviews = Inr res \<and>
     feature_requests_count res = length (filter (requests_feature env) reviews) \<and>
     feature_request_samples res = take 5 (map feature_example (filter (requests_feature env) reviews)) \<and>
     length (feature_request_samples res) \<le> 5 \<and>
     (\<forall>patterns text r frs.
        scan_patterns patterns text r frs =
          (if list_ex (\<lambda>pattern. re_search pattern text) patterns
           then frs @ [feature_example r] else frs)) \<and>
     (\<forall>pattern patterns text r frs.
        re_search pattern text \<longrightarrow>
          scan_patterns (pattern # patterns) text r frs = frs @ [feature_example r]) \<and>
     (\<forall>r. feature_example r =
            (rating r,
             if length (content r) > 300 then take 300 (content r) @ ''...'' else content r))"
proof -
  define res where
    "res = \<lparr>res_issue_categories =
              categorize env (filter (\<lambda>r. the (int_of_str env (rating r)) \<le> 3) reviews) [],
            total_issues_found =
              sum_list (map (\<lambda>(category, c, examples). c)
                (categorize env (filter (\<lambda>r. the (int_of_str env (rating r)) \<le> 3) reviews) [])),
            feature_requests_count = length (filter (requests_feature env) reviews),
            feature_request_samples = take 5 (map feature_example (filter (requests_feature env) reviews))\<rparr>"
  have r: "extract_keywords_and_issues env reviews = Inr res"
    unfolding res_def by (rule extract_Inr [OF assms])
  have c1: "feature_requests_count res = length (filter (requests_feature env) reviews)"
    by (simp add: res_def)
  have c2: "feature_request_samples res
      = take 5 (map feature_example (filter (requests_feature env) reviews))"
    by (simp add: res_def)
  have c3: "length (feature_request_samples res) \<le> 5"
    by (simp add: c2)
  have c4: "\<forall>patterns text r frs.
        scan_patterns patterns text r frs =
          (if list_ex (\<lambda>pattern. re_search pattern text) patterns
           then frs @ [feature_example r] else frs)"
    using scan_patterns_eq by blast
  have c5: "\<forall>pattern patterns text r frs.
        re_search pattern text \<longrightarrow>
          scan_patterns (pattern # patterns) text r frs = frs @ [feature_example r]"
    by (simp add: feature_example_def)
  have c6: "\<forall>r. feature_example r =
            (rating r,
             if length (content r) > 300 then take 300 (content r) @ ''...'' else content r)"
    by (simp add: feature_example_def excerpt_def)
  show ?thesis
    by (rule exI [of _ res])
       (rule conjI [OF r conjI [OF c1 conjI [OF c2 conjI [OF c3 conjI [OF c4 conjI [OF c5 c6]]]]]])
qed

text \<open>
  The theorem on the four reviews: the first and the second ask for a feature, the first
  through two of the patterns, and each is counted once.
\<close>

theorem feature_requests_counted_once_witness:
  "list_all (\<lambda>r. int_of_str env0 (rating r) \<noteq> None) issue_reviews \<and>
   extract_keywords_and_issues env0 issue_reviews = Inr issue_reviews_result \<and>
   feature_requests_count issue_reviews_result = length (filter (requests_feature env0) issue_reviews) \<and>
   feature_requests_count issue_reviews_result = 2 \<and>
   feature_request_samples issue_reviews_result
     = take 5 (map feature_example (filter (requests_feature env0) issue_reviews)) \<and>
   length (feature_request_samples issue_reviews_result) \<le> 5"
proof -
  from feature_requests_counted_once [OF issue_reviews_ratings] obtain res where
    res: "extract_keywords_and_issues env0 issue_reviews = Inr res"
    and c1: "feature_requests_count res = length (filter (requests_feature env0) issue_reviews)"
    and c2: "feature_request_samples res
      = take 5 (map feature_example (filter (requests_feature env0) issue_reviews))"
    and c3: "length (feature_request_samples res) \<le> 5"
    by blast
  from res have e: "res = issue_reviews_result"
    by (simp add: issue_reviews_value)
  have two: "feature_requests_count issue_reviews_result = 2"
    by (simp add: issue_reviews_result_def)
  show ?thesis
    using issue_reviews_ratings issue_reviews_value c1 c2 c3 two unfolding e list_all_iff by blast
qed

section \<open>When the trend analyzer fails\<close>

lemma dated_review_None_iff:
  "dated_review env r = None \<longleftrightarrow>
     fromisoformat env (str_replace ''Z'' ''+00:00'' (updated r)) = None \<or>
     int_of_str env (rating r) = None"
  by (auto simp: dated_review_def split: option.splits)

lemma dated_reviews_Nil_iff:
  "dated_reviews env reviews = [] \<longleftrightarrow> (\<forall>r \<in> set reviews. dated_review env r = None)"
proof -
  have "dated_reviews env reviews = [] \<longleftrightarrow>
          filter (\<lambda>r. dated_review env r \<noteq> None) reviews = []"
    by (simp add: dated_reviews_def map_filter_def)
  also have "\<dots> \<longleftrightarrow> (\<forall>r \<in> set reviews. dated_review env r = None)"
    by (simp only: filter_empty_conv not_not)
  finally show ?thesis .
qed

lemma dated_reviews_ratings:
  assumes "x \<in> set (dated_reviews env reviews)"
  shows "\<exists>r \<in> set reviews. int_of_str env (rating r) = Some (snd x)"
proof -
  from assms obtain r where "r \<in> set reviews" "dated_review env r = Some x"
    by (auto simp: dated_reviews_def map_filter_def)
  then show ?thesis
    by (auto simp: dated_review_def split: option.splits)
qed

lemma analyze_trends_no_dates:
  assumes "\<forall>r \<in> set reviews.
             fromisoformat env (str_replace ''Z'' ''+00:00'' (updated r)) = None \<or>
             int_of_str env (rating r) = None"
  shows "analyze_temporal_trends env reviews = Inl StatisticsError"
proof -
  have "dated_reviews env reviews = []"
    using assms by (simp add: dated_reviews_Nil_iff dated_review_None_iff)
  then show ?thesis
    by (simp add: analyze_temporal_trends_def trend_windows_Nil)
qed

lemma analyze_trends_mixed:
  assumes "mixed (dated_reviews env reviews)"
  shows "analyze_temporal_trends env reviews = Inl TypeError"
  by (simp add: analyze_temporal_trends_def trend_windows_mixed [OF assms])

lemma analyze_trends_returns:
  assumes "\<exists>r \<in> set reviews.
             fromisoformat env (str_replace ''Z'' ''+00:00'' (updated r)) \<noteq> None \<and>
             int_of_str env (rating r) \<noteq> None"
    and "\<not> mixed (dated_reviews env reviews)"
    and "\<forall>r \<in> set reviews. \<forall>k. int_of_str env (rating r) = Some k \<longrightarrow> \<bar>of_int k :: rat\<bar> \<le> b"
    and "float_ok env b"
  shows "\<exists>stats. analyze_temporal_trends env reviews = Inr stats"
proof -
  have ne: "dated_reviews env reviews \<noteq> []"
    using assms(1) by (simp add: dated_reviews_Nil_iff dated_review_None_iff)
  have bound: "\<forall>x \<in> set (dated_reviews env reviews). \<bar>of_int (snd x) :: rat\<bar> \<le> b"
  proof
    fix x assume "x \<in> set (dated_reviews env reviews)"
    from dated_reviews_ratings [OF this] assms(3) show "\<bar>of_int (snd x) :: rat\<bar> \<le> b"
      by blast
  qed
  from trend_windows_returns [OF ne assms(2) bound assms(4)] obtain w where
    "trend_windows env reviews = Inr w" by blast
  then show ?thesis
    by (cases w) (simp add: analyze_temporal_trends_def)
qed

text \<open>
  C10, as the code has it. A review is dated when its timestamp parses and its rating
  converts to an int; the \<^verbatim>\<open>try\<close> covers both. With no dated review, the empty
  list included, the trend analyzer fails with the \<^verbatim>\<open>StatisticsError\<close> of the mean
  over no months. With at least one dated review it returns, provided the dated
  timestamps are all naive or all aware and floats behave up to a bound on the ratings.
  When naive and aware timestamps are mixed, the sort raises \<^verbatim>\<open>TypeError\<close>.
\<close>

theorem trends_fail_or_return:
  "((\<forall>r \<in> set reviews.
        fromisoformat env (str_replace ''Z'' ''+00:00'' (updated r)) = None \<or>
        int_of_str env (rating r) = None)
      \<longrightarrow> analyze_temporal_trends env reviews = Inl StatisticsError) \<and>
   ((\<exists>r \<in> set reviews.
        fromisoformat env (str_replace ''Z'' ''+00:00'' (updated r)) \<noteq> None \<and>
        int_of_str env (rating r) \<noteq> None) \<and>
    \<not> mixed (dated_reviews env reviews) \<and>
    (\<forall>r \<in> set reviews. \<forall>k. int_of_str env (rating r) = Some k \<longrightarrow> \<bar>of_int k :: rat\<bar> \<le> b) \<and>
    float_ok env b
      \<longrightarrow> (\<exists>stats. analyze_temporal_trends env reviews = Inr stats)) \<and>
   (mixed (dated_reviews env reviews)
      \<longrightarrow> analyze_temporal_trends env reviews = Inl TypeError)"
proof -
  have c1: "(\<forall>r \<in> set reviews.
        fromisoformat env (str_replace ''Z'' ''+00:00'' (updated r)) = None \<or>
        int_of_str env (rating r) = None)
      \<longrightarrow> analyze_temporal_trends env reviews = Inl StatisticsError"
    using analyze_trends_no_dates [of reviews env] by blast
  have c2: "(\<exists>r \<in> set reviews.
        fromisoformat env (str_replace ''Z'' ''+00:00'' (updated r)) \<noteq> None \<and>
        int_of_str env (rating r) \<noteq> None) \<and>
    \<not> mixed (dated_reviews env reviews) \<and>
    (\<forall>r \<in> set reviews. \<forall>k. int_of_str env (rating r) = Some k \<longrightarrow> \<bar>of_int k :: rat\<bar> \<le> b) \<and>
    float_ok env b
      \<longrightarrow> (\<exists>stats. analyze_temporal_trends env reviews = Inr stats)"
    using analyze_trends_returns [of reviews env b] by blast
  have c3: "mixed (dated_reviews env reviews)
      \<longrightarrow> analyze_temporal_trends env reviews = Inl TypeError"
    using analyze_trends_mixed [of env reviews] by blast
  show ?thesis by (rule conjI [OF c1 conjI [OF c2 c3]])
qed

text \<open>
  The timestamp of the one review parses, yet the trend analyzer fails: the rating of the
  review is the empty string, so the review is skipped and no month is left.
\<close>

theorem trends_parseable_timestamp_fails:
  "fromisoformat env0 (str_replace ''Z'' ''+00:00'' (updated unrated_review)) \<noteq> None \<and>
   analyze_temporal_trends env0 [unrated_review] = Inl StatisticsError"
proof -
  have "int_of_str env0 (rating unrated_review) = None"
    by (simp add: unrated_review_def mk_review_def env0_def parse_int_digit)
  then have "analyze_temporal_trends env0 [unrated_review] = Inl StatisticsError"
    by (intro analyze_trends_no_dates) simp
  with unrated_review_parses show ?thesis by (rule conjI)
qed

text \<open>
  The theorem on the review without a rating, on the reviews of four months, and on a
  naive timestamp next to an aware one.
\<close>

theorem trends_fail_or_return_witness:
  "list_all
     (\<lambda>r. fromisoformat env0 (str_replace ''Z'' ''+00:00'' (updated r)) = None \<or>
          int_of_str env0 (rating r) = None)
     [unrated_review] \<and>
   analyze_temporal_trends env0 [unrated_review] = Inl StatisticsError \<and>
   (\<exists>r \<in> set four_months.
       fromisoformat env0 (str_replace ''Z'' ''+00:00'' (updated r)) \<noteq> None \<and>
       int_of_str env0 (rating r) \<noteq> None) \<and>
   \<not> mixed (dated_reviews env0 four_months) \<and>
   list_all (\<lambda>r. \<forall>k. int_of_str env0 (rating r) = Some k \<longrightarrow> \<bar>of_int k :: rat\<bar> \<le> 5)
     four_months \<and>
   float_ok env0 5 \<and>
   (\<exists>stats. analyze_temporal_trends env0 four_months = Inr stats) \<and>
   mixed (dated_reviews env0 naive_and_aware) \<and>
   analyze_temporal_trends env0 naive_and_aware = Inl TypeError"
proof -
  have h1: "\<forall>r \<in> set [unrated_review].
       fromisoformat env0 (str_replace ''Z'' ''+00:00'' (updated r)) = None \<or>
       int_of_str env0 (rating r) = None"
    by (simp add: unrated_review_def mk_review_def env0_def parse_int_digit)
  have r1: "analyze_temporal_trends env0 [unrated_review] = Inl StatisticsError"
    using trends_fail_or_return [of "[unrated_review]" env0 5] h1 by blast
  have "dated_reviews env0 four_months \<noteq> []"
    using four_months_card by auto
  then have h2: "\<exists>r \<in> set four_months.
       fromisoformat env0 (str_replace ''Z'' ''+00:00'' (updated r)) \<noteq> None \<and>
       int_of_str env0 (rating r) \<noteq> None"
    by (simp add: dated_reviews_Nil_iff dated_review_None_iff)
  have h3: "\<not> mixed (dated_reviews env0 four_months)"
    by (rule trend_windows_Inr(1) [OF four_months_windows])
  note h4 = four_months_ratings
  note h5 = float_ok_env0_5
  have r2: "\<exists>stats. analyze_temporal_trends env0 four_months = Inr stats"
    using trends_fail_or_return [of four_months env0 5] h2 h3 h4 h5 by blast
  note h6 = naive_and_aware_mixed
  have r3: "analyze_temporal_trends env0 naive_and_aware = Inl TypeError"
    using trends_fail_or_return [of naive_and_aware env0 5] h6 by blast
  show ?thesis
    unfolding list_all_iff
    by (rule conjI [OF h1 conjI [OF r1 conjI [OF h2 conjI [OF h3 conjI [OF h4
          conjI [OF h5 conjI [OF r2 conjI [OF h6 r3]]]]]]]])
qed

end
